theory Spec2Isabelle
  imports Complex_Main "HOL-Library.Word" "HOL-Library.Signed_Division" "HOL-Library.Multiset"
begin

unbundle bit_operations_syntax

section \<open>Values of the program\<close>

text \<open>
  A Go \<open>error\<close> is only ever printed or handed back by this program, so it is modelled by
  its message.
\<close>

type_synonym error = string

text \<open>
  A \<open>float64\<close> is either a finite value (kept as the rational number it denotes; the two
  zeros are identified, since no operation of this program tells them apart), one of the two
  infinities, or NaN.
\<close>

datatype float64 = Fin rat | PInf | NInf | NaN

fun f64_lt :: "float64 \<Rightarrow> float64 \<Rightarrow> bool" where
  "f64_lt NaN _ = False"
| "f64_lt _ NaN = False"
| "f64_lt (Fin a) (Fin b) = (a < b)"
| "f64_lt (Fin a) PInf = True"
| "f64_lt (Fin a) NInf = False"
| "f64_lt PInf _ = False"
| "f64_lt NInf NInf = False"
| "f64_lt NInf _ = True"

definition f64_gt :: "float64 \<Rightarrow> float64 \<Rightarrow> bool" where
  "f64_gt x y = f64_lt y x"

fun f64_ge :: "float64 \<Rightarrow> float64 \<Rightarrow> bool" where
  "f64_ge NaN _ = False"
| "f64_ge _ NaN = False"
| "f64_ge x y = (\<not> f64_lt x y)"

text \<open>
  Arithmetic on \<open>float64\<close> rounds. The rounding function \<open>rnd\<close> (IEEE 754 round to
  nearest, ties to even, on the magnitudes this program meets) is a parameter of every
  operation that rounds: it maps the exact result to the \<open>float64\<close> that is stored.
  Division is only ever by the positive constants \<open>100\<close> and \<open>64.0\<close>.
\<close>

fun f64_div_pos :: "(rat \<Rightarrow> rat) \<Rightarrow> float64 \<Rightarrow> rat \<Rightarrow> float64" where
  "f64_div_pos rnd (Fin a) c = Fin (rnd (a / c))"
| "f64_div_pos rnd PInf c = PInf"
| "f64_div_pos rnd NInf c = NInf"
| "f64_div_pos rnd NaN c = NaN"

text \<open>Everything this program prints to standard output, one constructor per print site.\<close>

datatype printed =
    Usage
  | Invalid_similarity_percentage error
  | Error_loading_images error
  | Similar_images
  | Path_line string
  | Blank_line
  | Error_calculating_distance error
  | Error_deleting_images error
  | Total_space_saved "64 word"

text \<open>
  \<open>ImageInfo\<close>: the path of a file and its perceptual hash. The hash is opaque to this
  program: it is only ever handed to the fingerprinting collaborator's \<open>Distance\<close>, which
  is a parameter \<open>D\<close> of the model (\<open>D h other\<close> is \<open>h.Distance(other)\<close>: the distance, or
  an error).
\<close>

record 'h ImageInfo =
  Path :: string
  Hash :: 'h

type_synonym 'h distance = "'h \<Rightarrow> 'h \<Rightarrow> error + int"

section \<open>parsePercentage\<close>

text \<open>
  \<open>fmt.Sscanf(percentageStr, "%f", &percentage)\<close> is the parameter \<open>sscanf\<close>: the error, or
  the value it stored.
\<close>

definition parsePercentage ::
  "(rat \<Rightarrow> rat) \<Rightarrow> (string \<Rightarrow> error + float64) \<Rightarrow> string \<Rightarrow> float64 \<times> error option" where
  "parsePercentage rnd sscanf percentageStr =
     (case sscanf percentageStr of
        Inl err \<Rightarrow> (Fin 0, Some err)
      | Inr percentage \<Rightarrow>
          if f64_lt percentage (Fin 0) \<or> f64_gt percentage (Fin 100)
          then (Fin 0, Some ''percentage must be between 0 and 100'')
          else (f64_div_pos rnd percentage 100, None))"

section \<open>findSimilarImages\<close>

text \<open>
  \<open>similarity := 1 - float64(distance)/64.0\<close>: the conversion, the division and the
  subtraction each round. All three results are finite for every Go \<open>int\<close>.
\<close>

definition similarity :: "(rat \<Rightarrow> rat) \<Rightarrow> int \<Rightarrow> float64" where
  "similarity rnd distance = Fin (rnd (1 - rnd (rnd (of_int distance) / 64)))"

text \<open>
  The inner loop over \<open>j\<close>. Its state is the group being built, the \<open>used\<close> map (a Go
  \<open>map[int]bool\<close>, which reads \<open>false\<close> at a missing key) and standard output.
\<close>

function findSimilarImages_inner ::
  "'h distance \<Rightarrow> (rat \<Rightarrow> rat) \<Rightarrow> 'h ImageInfo list \<Rightarrow> float64 \<Rightarrow> nat \<Rightarrow> nat \<Rightarrow>
   'h ImageInfo list \<times> (nat \<Rightarrow> bool) \<times> printed list \<Rightarrow>
   'h ImageInfo list \<times> (nat \<Rightarrow> bool) \<times> printed list" where
  "findSimilarImages_inner D rnd images similarityThreshold i j (grp, used, out) =
     (if j < length images then
        if used j then
          findSimilarImages_inner D rnd images similarityThreshold i (Suc j) (grp, used, out)
        else
          (case D (Hash (images ! i)) (Hash (images ! j)) of
             Inl err \<Rightarrow>
               findSimilarImages_inner D rnd images similarityThreshold i (Suc j)
                 (grp, used, out @ [Error_calculating_distance err])
           | Inr distance \<Rightarrow>
               if f64_ge (similarity rnd distance) similarityThreshold
               then findSimilarImages_inner D rnd images similarityThreshold i (Suc j)
                      (grp @ [images ! j], used(j := True), out)
               else findSimilarImages_inner D rnd images similarityThreshold i (Suc j)
                      (grp, used, out))
      else (grp, used, out))"
  by pat_completeness auto
termination
  by (relation "measure (\<lambda>(D, rnd, images, t, i, j, s). length images - j)") auto

text \<open>The outer loop over \<open>i\<close>; its state is the groups emitted so far, \<open>used\<close> and standard output.\<close>

function findSimilarImages_outer ::
  "'h distance \<Rightarrow> (rat \<Rightarrow> rat) \<Rightarrow> 'h ImageInfo list \<Rightarrow> float64 \<Rightarrow> nat \<Rightarrow>
   'h ImageInfo list list \<times> (nat \<Rightarrow> bool) \<times> printed list \<Rightarrow>
   'h ImageInfo list list \<times> (nat \<Rightarrow> bool) \<times> printed list" where
  "findSimilarImages_outer D rnd images similarityThreshold i (groups, used, out) =
     (if i < length images then
        if used i then
          findSimilarImages_outer D rnd images similarityThreshold (Suc i) (groups, used, out)
        else
          (case findSimilarImages_inner D rnd images similarityThreshold i (Suc i)
                  ([images ! i], used, out) of
             (grp, used', out') \<Rightarrow>
               findSimilarImages_outer D rnd images similarityThreshold (Suc i)
                 (if length grp > 1 then groups @ [grp] else groups, used', out'))
      else (groups, used, out))"
  by pat_completeness auto
termination
  by (relation "measure (\<lambda>(D, rnd, images, t, i, s). length images - i)") auto

definition findSimilarImages ::
  "'h distance \<Rightarrow> (rat \<Rightarrow> rat) \<Rightarrow> 'h ImageInfo list \<Rightarrow> float64 \<Rightarrow> printed list \<Rightarrow>
   'h ImageInfo list list \<times> printed list" where
  "findSimilarImages D rnd images similarityThreshold out =
     (case findSimilarImages_outer D rnd images similarityThreshold 0 ([], (\<lambda>_. False), out) of
        (groups, used, out') \<Rightarrow> (groups, out'))"

section \<open>findSimilarImages on the memory of the program\<close>

text \<open>
  The same function once more, lines 123 to 153, this time with the slices where Go keeps
  them. A slice is a header, passed by value: the array it points to, its length and its
  capacity. The arrays are in the memory of the program; \<open>allocated\<close> is the first address
  not yet in use. An array is kept as the list of its elements that have been written.
  The slices \<open>images\<close> and \<open>group\<close> are modelled so; \<open>groups\<close> is the list of the headers
  it holds, and \<open>used\<close> a function, as before: nothing else refers to their storage. An
  element is a path, which Go cannot modify, and a pointer to a fingerprint, which the
  function only passes to \<open>Distance\<close>.
\<close>

record slice =
  slice_array :: nat
  slice_len :: nat
  slice_cap :: nat

record 'h memory =
  arrays :: "nat \<Rightarrow> 'h ImageInfo list"
  allocated :: nat

text \<open>\<open>s[k]\<close> and the elements of \<open>s\<close>.\<close>

definition slice_index :: "'h memory \<Rightarrow> slice \<Rightarrow> nat \<Rightarrow> 'h ImageInfo" where
  "slice_index m s k = arrays m (slice_array s) ! k"

definition slice_elements :: "'h memory \<Rightarrow> slice \<Rightarrow> 'h ImageInfo list" where
  "slice_elements m s = take (slice_len s) (arrays m (slice_array s))"

text \<open>\<open>[]ImageInfo{x}\<close>: a new array of one element.\<close>

definition slice_literal :: "'h memory \<Rightarrow> 'h ImageInfo \<Rightarrow> slice \<times> 'h memory" where
  "slice_literal m x =
     (\<lparr>slice_array = allocated m, slice_len = 1, slice_cap = 1\<rparr>,
      m\<lparr>arrays := (arrays m)(allocated m := [x]), allocated := Suc (allocated m)\<rparr>)"

text \<open>
  \<open>append(s, x)\<close>: when the capacity is not used up, \<open>x\<close> is written into the array of
  \<open>s\<close> at index \<open>len(s)\<close>; otherwise the elements and \<open>x\<close> go to a new array, whose capacity
  the runtime chooses (the parameter \<open>growslice\<close>, from the old capacity).
\<close>

definition slice_append ::
  "(nat \<Rightarrow> nat) \<Rightarrow> 'h memory \<Rightarrow> slice \<Rightarrow> 'h ImageInfo \<Rightarrow> slice \<times> 'h memory" where
  "slice_append growslice m s x =
     (let elems = arrays m (slice_array s) in
      if slice_len s < slice_cap s then
        (s\<lparr>slice_len := Suc (slice_len s)\<rparr>,
         m\<lparr>arrays := (arrays m)(slice_array s :=
              take (slice_len s) elems @ [x] @ drop (Suc (slice_len s)) elems)\<rparr>)
      else
        (\<lparr>slice_array = allocated m, slice_len = Suc (slice_len s),
          slice_cap = growslice (slice_cap s)\<rparr>,
         m\<lparr>arrays := (arrays m)(allocated m := take (slice_len s) elems @ [x]),
           allocated := Suc (allocated m)\<rparr>))"

function findSimilarImages_memory_inner ::
  "'h distance \<Rightarrow> (rat \<Rightarrow> rat) \<Rightarrow> (nat \<Rightarrow> nat) \<Rightarrow> slice \<Rightarrow> float64 \<Rightarrow> nat \<Rightarrow> nat \<Rightarrow>
   slice \<times> (nat \<Rightarrow> bool) \<times> printed list \<times> 'h memory \<Rightarrow>
   slice \<times> (nat \<Rightarrow> bool) \<times> printed list \<times> 'h memory" where
  "findSimilarImages_memory_inner D rnd growslice images similarityThreshold i j
       (grp, used, out, m) =
     (if j < slice_len images then
        if used j then
          findSimilarImages_memory_inner D rnd growslice images similarityThreshold i (Suc j)
            (grp, used, out, m)
        else
          (case D (Hash (slice_index m images i)) (Hash (slice_index m images j)) of
             Inl err \<Rightarrow>
               findSimilarImages_memory_inner D rnd growslice images similarityThreshold i (Suc j)
                 (grp, used, out @ [Error_calculating_distance err], m)
           | Inr distance \<Rightarrow>
               if f64_ge (similarity rnd distance) similarityThreshold
               then (case slice_append growslice m grp (slice_index m images j) of
                       (grp', m') \<Rightarrow>
                         findSimilarImages_memory_inner D rnd growslice images
                           similarityThreshold i (Suc j) (grp', used(j := True), out, m'))
               else findSimilarImages_memory_inner D rnd growslice images similarityThreshold i
                      (Suc j) (grp, used, out, m))
      else (grp, used, out, m))"
  by pat_completeness auto
termination
  by (relation "measure (\<lambda>(D, rnd, growslice, images, t, i, j, s). slice_len images - j)") auto

function findSimilarImages_memory_outer ::
  "'h distance \<Rightarrow> (rat \<Rightarrow> rat) \<Rightarrow> (nat \<Rightarrow> nat) \<Rightarrow> slice \<Rightarrow> float64 \<Rightarrow> nat \<Rightarrow>
   slice list \<times> (nat \<Rightarrow> bool) \<times> printed list \<times> 'h memory \<Rightarrow>
   slice list \<times> (nat \<Rightarrow> bool) \<times> printed list \<times> 'h memory" where
  "findSimilarImages_memory_outer D rnd growslice images similarityThreshold i
       (groups, used, out, m) =
     (if i < slice_len images then
        if used i then
          findSimilarImages_memory_outer D rnd growslice images similarityThreshold (Suc i)
            (groups, used, out, m)
        else
          (case slice_literal m (slice_index m images i) of
             (grp0, m0) \<Rightarrow>
               (case findSimilarImages_memory_inner D rnd growslice images similarityThreshold
                       i (Suc i) (grp0, used, out, m0) of
                  (grp, used', out', m') \<Rightarrow>
                    findSimilarImages_memory_outer D rnd growslice images similarityThreshold
                      (Suc i)
                      (if slice_len grp > 1 then groups @ [grp] else groups, used', out', m')))
      else (groups, used, out, m))"
  by pat_completeness auto
termination
  by (relation "measure (\<lambda>(D, rnd, growslice, images, t, i, s). slice_len images - i)") auto

definition findSimilarImages_memory ::
  "'h distance \<Rightarrow> (rat \<Rightarrow> rat) \<Rightarrow> (nat \<Rightarrow> nat) \<Rightarrow> slice \<Rightarrow> float64 \<Rightarrow>
   printed list \<times> 'h memory \<Rightarrow> slice list \<times> printed list \<times> 'h memory" where
  "findSimilarImages_memory D rnd growslice images similarityThreshold = (\<lambda>(out, m).
     (case findSimilarImages_memory_outer D rnd growslice images similarityThreshold 0
             ([], (\<lambda>_. False), out, m) of
        (groups, used, out', m') \<Rightarrow> (groups, out', m')))"

section \<open>sort.Slice\<close>

text \<open>
  \<open>sort.Slice(x, less)\<close> of the Go standard library (package \<open>sort\<close>, Go 1.19 and later)
  sorts in place through two callbacks, \<open>Less(i, j)\<close> and \<open>Swap(i, j)\<close>, with the
  pattern-defeating quicksort of \<open>zsortfunc.go\<close>. Both callbacks act on the state \<open>'s\<close> the
  slice lives in; \<open>Less\<close> may change it too (the comparison of this program prints).
  Indices are Go \<open>int\<close>s; \<open>/\<close> on them truncates (\<open>sdiv\<close>). The library is not part
  of the program: deleteSimilarImages below takes its sort as a parameter, and this section
  is the sort that parameter stands for.
\<close>

record 's lessSwap =
  Less :: "int \<Rightarrow> int \<Rightarrow> 's \<Rightarrow> bool \<times> 's"
  Swap :: "int \<Rightarrow> int \<Rightarrow> 's \<Rightarrow> 's"

datatype sortedHint = unknownHint | increasingHint | decreasingHint

subsection \<open>insertionSort\<close>

text \<open>\<open>for j := i; j > a && data.Less(j, j-1); j-- { data.Swap(j, j-1) }\<close>\<close>

function insertionSort_shift :: "'s lessSwap \<Rightarrow> int \<Rightarrow> int \<Rightarrow> 's \<Rightarrow> 's" where
  "insertionSort_shift data a j s =
     (if j > a then
        (case Less data j (j - 1) s of
           (lt, s') \<Rightarrow> if lt then insertionSort_shift data a (j - 1) (Swap data j (j - 1) s')
                       else s')
      else s)"
  by pat_completeness auto
termination
  by (relation "measure (\<lambda>(data, a, j, s). nat (j - a))") auto

text \<open>\<open>for i := a + 1; i < b; i++ { ... }\<close>\<close>

function insertionSort_loop :: "'s lessSwap \<Rightarrow> int \<Rightarrow> int \<Rightarrow> int \<Rightarrow> 's \<Rightarrow> 's" where
  "insertionSort_loop data a b i s =
     (if i < b then insertionSort_loop data a b (i + 1) (insertionSort_shift data a i s)
      else s)"
  by pat_completeness auto
termination
  by (relation "measure (\<lambda>(data, a, b, i, s). nat (b - i))") auto

definition insertionSort_func :: "'s lessSwap \<Rightarrow> int \<Rightarrow> int \<Rightarrow> 's \<Rightarrow> 's" where
  "insertionSort_func data a b s = insertionSort_loop data a b (a + 1) s"

subsection \<open>heapSort\<close>

text \<open>
  The loop of \<open>siftDown\<close>. \<open>root\<close> starts at \<open>lo\<close>, which is never negative (heapSort
  passes a loop counter that is at least 0, or 0), and only grows: it is a natural number
  here.
\<close>

function siftDown_loop :: "'s lessSwap \<Rightarrow> int \<Rightarrow> int \<Rightarrow> nat \<Rightarrow> 's \<Rightarrow> 's" where
  "siftDown_loop data hi first rootIdx s =
     (let child = 2 * int rootIdx + 1 in
      if child \<ge> hi then s
      else
        (case (if child + 1 < hi
               then (case Less data (first + child) (first + child + 1) s of
                       (lt, s') \<Rightarrow> (if lt then child + 1 else child, s'))
               else (child, s)) of
           (child', s1) \<Rightarrow>
             (case Less data (first + int rootIdx) (first + child') s1 of
                (lt, s2) \<Rightarrow>
                  if \<not> lt then s2
                  else siftDown_loop data hi first (nat child')
                         (Swap data (first + int rootIdx) (first + child') s2))))"
  by pat_completeness auto
termination
  by (relation "measure (\<lambda>(data, hi, first, rootIdx, s). nat (hi - int rootIdx))")
     (auto split: if_splits prod.splits)

definition siftDown_func :: "'s lessSwap \<Rightarrow> int \<Rightarrow> int \<Rightarrow> int \<Rightarrow> 's \<Rightarrow> 's" where
  "siftDown_func data lo hi first s = siftDown_loop data hi first (nat lo) s"

text \<open>\<open>for i := (hi - 1) / 2; i >= 0; i-- { siftDown(data, i, hi, first) }\<close>\<close>

function heapSort_build :: "'s lessSwap \<Rightarrow> int \<Rightarrow> int \<Rightarrow> int \<Rightarrow> 's \<Rightarrow> 's" where
  "heapSort_build data hi first i s =
     (if i \<ge> 0 then heapSort_build data hi first (i - 1) (siftDown_func data i hi first s)
      else s)"
  by pat_completeness auto
termination
  by (relation "measure (\<lambda>(data, hi, first, i, s). nat (i + 1))") auto

text \<open>\<open>for i := hi - 1; i >= 0; i-- { data.Swap(first, first+i); siftDown(data, lo, i, first) }\<close>\<close>

function heapSort_pop :: "'s lessSwap \<Rightarrow> int \<Rightarrow> int \<Rightarrow> int \<Rightarrow> 's \<Rightarrow> 's" where
  "heapSort_pop data lo first i s =
     (if i \<ge> 0
      then heapSort_pop data lo first (i - 1)
             (siftDown_func data lo i first (Swap data first (first + i) s))
      else s)"
  by pat_completeness auto
termination
  by (relation "measure (\<lambda>(data, lo, first, i, s). nat (i + 1))") auto

definition heapSort_func :: "'s lessSwap \<Rightarrow> int \<Rightarrow> int \<Rightarrow> 's \<Rightarrow> 's" where
  "heapSort_func data a b s =
     (let first = a; lo = 0; hi = b - a in
      heapSort_pop data lo first (hi - 1)
        (heapSort_build data hi first ((hi - 1) sdiv 2) s))"

subsection \<open>breakPatterns\<close>

text \<open>\<open>bits.Len(uint(length))\<close>: the number of bits needed to write \<open>length\<close>.\<close>

fun bits_Len :: "nat \<Rightarrow> nat" where
  "bits_Len n = (if n = 0 then 0 else Suc (bits_Len (n div 2)))"

declare bits_Len.simps [simp del]

text \<open>
  The generator \<open>xorshift\<close> is a \<open>uint64\<close>; its method \<open>Next\<close> is three shifts and
  exclusive ors. The shift amounts are not the same in every release of the library, so the
  step of the generator is the parameter \<open>Next\<close> of \<open>breakPatterns\<close>, and through it of
  the sort. \<open>xorshift_Next\<close> is the step with the amounts 13, 7 and 17, for the examples
  that need some generator; none of them gets as far as \<open>breakPatterns\<close>.
\<close>

definition xorshift_Next :: "64 word \<Rightarrow> 64 word" where
  "xorshift_Next r =
     (let r1 = r XOR push_bit 13 r;
          r2 = r1 XOR drop_bit 7 r1;
          r3 = r2 XOR push_bit 17 r2
      in r3)"

definition nextPowerOfTwo :: "int \<Rightarrow> 64 word" where
  "nextPowerOfTwo len = push_bit (bits_Len (nat len)) 1"

text \<open>\<open>for i := 0; i < 3; i++ { ... data.Swap(idx-1+i, a+other) }\<close>\<close>

function breakPatterns_loop ::
  "(64 word \<Rightarrow> 64 word) \<Rightarrow> 's lessSwap \<Rightarrow> int \<Rightarrow> int \<Rightarrow> 64 word \<Rightarrow> int \<Rightarrow> int \<Rightarrow> 64 word \<Rightarrow>
   's \<Rightarrow> 's" where
  "breakPatterns_loop Next data a len modulus idx i random s =
     (if i < 3 then
        (let random' = Next random;
             other = uint (random' AND (modulus - 1));
             other' = (if other \<ge> len then other - len else other)
         in breakPatterns_loop Next data a len modulus idx (i + 1) random'
              (Swap data (idx - 1 + i) (a + other') s))
      else s)"
  by pat_completeness auto
termination
  by (relation "measure (\<lambda>(Next, data, a, len, modulus, idx, i, random, s). nat (3 - i))") auto

definition breakPatterns_func ::
  "(64 word \<Rightarrow> 64 word) \<Rightarrow> 's lessSwap \<Rightarrow> int \<Rightarrow> int \<Rightarrow> 's \<Rightarrow> 's" where
  "breakPatterns_func Next data a b s =
     (let len = b - a in
      if len \<ge> 8 then
        (let random = word_of_int len;
             modulus = nextPowerOfTwo len;
             idx = a + (len sdiv 4) * 2 - 1
         in breakPatterns_loop Next data a len modulus idx 0 random s)
      else s)"

subsection \<open>choosePivot\<close>

definition order2_func ::
  "'s lessSwap \<Rightarrow> int \<Rightarrow> int \<Rightarrow> int \<Rightarrow> 's \<Rightarrow> (int \<times> int) \<times> int \<times> 's" where
  "order2_func data a b swaps s =
     (case Less data b a s of
        (lt, s') \<Rightarrow> if lt then ((b, a), swaps + 1, s') else ((a, b), swaps, s'))"

definition median_func ::
  "'s lessSwap \<Rightarrow> int \<Rightarrow> int \<Rightarrow> int \<Rightarrow> int \<Rightarrow> 's \<Rightarrow> int \<times> int \<times> 's" where
  "median_func data a b c swaps s =
     (case order2_func data a b swaps s of
        ((a1, b1), swaps1, s1) \<Rightarrow>
          (case order2_func data b1 c swaps1 s1 of
             ((b2, c2), swaps2, s2) \<Rightarrow>
               (case order2_func data a1 b2 swaps2 s2 of
                  ((a3, b3), swaps3, s3) \<Rightarrow> (b3, swaps3, s3))))"

definition medianAdjacent_func ::
  "'s lessSwap \<Rightarrow> int \<Rightarrow> int \<Rightarrow> 's \<Rightarrow> int \<times> int \<times> 's" where
  "medianAdjacent_func data a swaps s = median_func data (a - 1) a (a + 1) swaps s"

definition choosePivot_func ::
  "'s lessSwap \<Rightarrow> int \<Rightarrow> int \<Rightarrow> 's \<Rightarrow> (int \<times> sortedHint) \<times> 's" where
  "choosePivot_func data a b s =
     (let shortestNinther = 50;
          maxSwaps = 4 * 3;
          l = b - a;
          i = a + l sdiv 4 * 1;
          j = a + l sdiv 4 * 2;
          k = a + l sdiv 4 * 3
      in
        (case (if l \<ge> 8 then
                 (case (if l \<ge> shortestNinther then
                          (case medianAdjacent_func data i 0 s of
                             (i', swaps1, s1) \<Rightarrow>
                               (case medianAdjacent_func data j swaps1 s1 of
                                  (j', swaps2, s2) \<Rightarrow>
                                    (case medianAdjacent_func data k swaps2 s2 of
                                       (k', swaps3, s3) \<Rightarrow> (i', j', k', swaps3, s3))))
                        else (i, j, k, 0, s)) of
                    (i', j', k', swaps, s') \<Rightarrow> median_func data i' j' k' swaps s')
               else (j, 0, s)) of
           (j', swaps, s') \<Rightarrow>
             (if swaps = 0 then ((j', increasingHint), s')
              else if swaps = maxSwaps then ((j', decreasingHint), s')
              else ((j', unknownHint), s'))))"

subsection \<open>reverseRange\<close>

function reverseRange_loop :: "'s lessSwap \<Rightarrow> int \<Rightarrow> int \<Rightarrow> 's \<Rightarrow> 's" where
  "reverseRange_loop data i j s =
     (if i < j then reverseRange_loop data (i + 1) (j - 1) (Swap data i j s) else s)"
  by pat_completeness auto
termination
  by (relation "measure (\<lambda>(data, i, j, s). nat (j - i))") auto

definition reverseRange_func :: "'s lessSwap \<Rightarrow> int \<Rightarrow> int \<Rightarrow> 's \<Rightarrow> 's" where
  "reverseRange_func data a b s = reverseRange_loop data a (b - 1) s"

subsection \<open>partialInsertionSort\<close>

text \<open>\<open>for i < b && !data.Less(i, i-1) { i++ }\<close>\<close>

function partialInsertionSort_scan ::
  "'s lessSwap \<Rightarrow> int \<Rightarrow> int \<Rightarrow> 's \<Rightarrow> int \<times> 's" where
  "partialInsertionSort_scan data b i s =
     (if i < b then
        (case Less data i (i - 1) s of
           (lt, s') \<Rightarrow> if \<not> lt then partialInsertionSort_scan data b (i + 1) s' else (i, s'))
      else (i, s))"
  by pat_completeness auto
termination
  by (relation "measure (\<lambda>(data, b, i, s). nat (b - i))") auto

text \<open>\<open>for j := i - 1; j >= 1; j-- { if !data.Less(j, j-1) { break }; data.Swap(j, j-1) }\<close>\<close>

function partialInsertionSort_left :: "'s lessSwap \<Rightarrow> int \<Rightarrow> 's \<Rightarrow> 's" where
  "partialInsertionSort_left data j s =
     (if j \<ge> 1 then
        (case Less data j (j - 1) s of
           (lt, s') \<Rightarrow> if \<not> lt then s'
                       else partialInsertionSort_left data (j - 1) (Swap data j (j - 1) s'))
      else s)"
  by pat_completeness auto
termination
  by (relation "measure (\<lambda>(data, j, s). nat j)") auto

text \<open>\<open>for j := i + 1; j < b; j++ { if !data.Less(j, j-1) { break }; data.Swap(j, j-1) }\<close>\<close>

function partialInsertionSort_right :: "'s lessSwap \<Rightarrow> int \<Rightarrow> int \<Rightarrow> 's \<Rightarrow> 's" where
  "partialInsertionSort_right data b j s =
     (if j < b then
        (case Less data j (j - 1) s of
           (lt, s') \<Rightarrow> if \<not> lt then s'
                       else partialInsertionSort_right data b (j + 1) (Swap data j (j - 1) s'))
      else s)"
  by pat_completeness auto
termination
  by (relation "measure (\<lambda>(data, b, j, s). nat (b - j))") auto

text \<open>\<open>for j := 0; j < maxSteps; j++ { ... }\<close>, with \<open>i\<close> kept from one round to the next.\<close>

function partialInsertionSort_steps ::
  "'s lessSwap \<Rightarrow> int \<Rightarrow> int \<Rightarrow> int \<Rightarrow> int \<Rightarrow> 's \<Rightarrow> bool \<times> 's" where
  "partialInsertionSort_steps data a b j i s =
     (let maxSteps = 5; shortestShifting = 50 in
      if j < maxSteps then
        (case partialInsertionSort_scan data b i s of
           (i', s1) \<Rightarrow>
             if i' = b then (True, s1)
             else if b - a < shortestShifting then (False, s1)
             else
               (let s2 = Swap data i' (i' - 1) s1;
                    s3 = (if i' - a \<ge> 2 then partialInsertionSort_left data (i' - 1) s2 else s2);
                    s4 = (if b - i' \<ge> 2 then partialInsertionSort_right data b (i' + 1) s3
                          else s3)
                in partialInsertionSort_steps data a b (j + 1) i' s4))
      else (False, s))"
  by pat_completeness auto
termination
  by (relation "measure (\<lambda>(data, a, b, j, i, s). nat (5 - j))") auto

definition partialInsertionSort_func :: "'s lessSwap \<Rightarrow> int \<Rightarrow> int \<Rightarrow> 's \<Rightarrow> bool \<times> 's" where
  "partialInsertionSort_func data a b s = partialInsertionSort_steps data a b 0 (a + 1) s"

subsection \<open>partition\<close>

text \<open>\<open>for i <= j && data.Less(i, a) { i++ }\<close>\<close>

function partition_up :: "'s lessSwap \<Rightarrow> int \<Rightarrow> int \<Rightarrow> int \<Rightarrow> 's \<Rightarrow> int \<times> 's" where
  "partition_up data a j i s =
     (if i \<le> j then
        (case Less data i a s of
           (lt, s') \<Rightarrow> if lt then partition_up data a j (i + 1) s' else (i, s'))
      else (i, s))"
  by pat_completeness auto
termination
  by (relation "measure (\<lambda>(data, a, j, i, s). nat (j + 1 - i))") auto

text \<open>\<open>for i <= j && !data.Less(j, a) { j-- }\<close>\<close>

function partition_down :: "'s lessSwap \<Rightarrow> int \<Rightarrow> int \<Rightarrow> int \<Rightarrow> 's \<Rightarrow> int \<times> 's" where
  "partition_down data a i j s =
     (if i \<le> j then
        (case Less data j a s of
           (lt, s') \<Rightarrow> if \<not> lt then partition_down data a i (j - 1) s' else (j, s'))
      else (j, s))"
  by pat_completeness auto
termination
  by (relation "measure (\<lambda>(data, a, i, j, s). nat (j + 1 - i))") auto

lemma partition_up_range:
  "partition_up data a j i s = (i', s') \<Longrightarrow> i \<le> i'"
proof (induction data a j i s rule: partition_up.induct)
  case (1 data a j i s)
  show ?case
  proof (cases "i \<le> j")
    case False
    with 1(2) show ?thesis by simp
  next
    case True
    obtain lt s1 where l: "Less data i a s = (lt, s1)" by (cases "Less data i a s")
    show ?thesis
    proof (cases lt)
      case True
      with \<open>i \<le> j\<close> l 1(2) have "partition_up data a j (i + 1) s1 = (i', s')" by simp
      from 1(1)[OF \<open>i \<le> j\<close> l[symmetric] True this] show ?thesis by simp
    next
      case False
      with \<open>i \<le> j\<close> l 1(2) show ?thesis by simp
    qed
  qed
qed

lemma partition_down_range:
  "partition_down data a i j s = (j', s') \<Longrightarrow> j' \<le> j \<and> min j (i - 1) \<le> j'"
proof (induction data a i j s rule: partition_down.induct)
  case (1 data a i j s)
  show ?case
  proof (cases "i \<le> j")
    case False
    with 1(2) show ?thesis by simp
  next
    case True
    obtain lt s1 where l: "Less data j a s = (lt, s1)" by (cases "Less data j a s")
    show ?thesis
    proof (cases lt)
      case False
      with \<open>i \<le> j\<close> l 1(2) have "partition_down data a i (j - 1) s1 = (j', s')" by simp
      from 1(1)[OF \<open>i \<le> j\<close> l[symmetric] False this] \<open>i \<le> j\<close> show ?thesis by simp
    next
      case True
      with \<open>i \<le> j\<close> l 1(2) show ?thesis by simp
    qed
  qed
qed

declare partition_up.simps [simp del] partition_down.simps [simp del]

text \<open>
  The \<open>for { ... }\<close> loop of \<open>partition\<close>: both scans, then \<open>if i > j { break }\<close>, else
  \<open>data.Swap(i, j); i++; j--\<close>.
\<close>

function partition_loop ::
  "'s lessSwap \<Rightarrow> int \<Rightarrow> int \<Rightarrow> int \<Rightarrow> 's \<Rightarrow> (int \<times> int) \<times> 's" where
  "partition_loop data a i j s =
     (case partition_up data a j i s of
        (i1, s1) \<Rightarrow>
          (case partition_down data a i1 j s1 of
             (j1, s2) \<Rightarrow>
               if i1 > j1 then ((i1, j1), s2)
               else partition_loop data a (i1 + 1) (j1 - 1) (Swap data i1 j1 s2)))"
  by pat_completeness auto
termination
proof (relation "measure (\<lambda>(data, a, i, j, s). nat (j - i + 1))", goal_cases)
  case 1
  show ?case by simp
next
  case (2 data a i j s x1 x2 y1 y2)
  from partition_up_range[OF 2(1)[symmetric]] partition_down_range[OF 2(2)[symmetric]] 2(3)
  show ?case by simp
qed

lemma partition_loop_range:
  "partition_loop data a i j s = ((i', j'), s') \<Longrightarrow> j' \<le> j \<and> min j (i - 1) \<le> j'"
proof (induction data a i j s rule: partition_loop.induct)
  case (1 data a i j s)
  obtain i1 s1 where u: "partition_up data a j i s = (i1, s1)"
    by (cases "partition_up data a j i s")
  obtain j1 s2 where d: "partition_down data a i1 j s1 = (j1, s2)"
    by (cases "partition_down data a i1 j s1")
  note ru = partition_up_range[OF u] and rd = partition_down_range[OF d]
  show ?case
  proof (cases "i1 > j1")
    case True
    with u d 1(2) have "j' = j1" by (simp add: partition_loop.simps[of data a i j s])
    with ru rd show ?thesis by (auto simp: min_def split: if_splits)
  next
    case False
    with u d 1(2) have "partition_loop data a (i1 + 1) (j1 - 1) (Swap data i1 j1 s2) =
        ((i', j'), s')"
      by (simp add: partition_loop.simps[of data a i j s])
    from 1(1)[OF u[symmetric] d[symmetric] False this] ru rd False show ?thesis
      by (auto simp: min_def split: if_splits)
  qed
qed

declare partition_loop.simps [simp del]

definition partition_func ::
  "'s lessSwap \<Rightarrow> int \<Rightarrow> int \<Rightarrow> int \<Rightarrow> 's \<Rightarrow> (int \<times> bool) \<times> 's" where
  "partition_func data a b pivot s =
     (case partition_up data a (b - 1) (a + 1) (Swap data a pivot s) of
        (i, s1) \<Rightarrow>
          (case partition_down data a i (b - 1) s1 of
             (j, s2) \<Rightarrow>
               if i > j then ((j, True), Swap data j a s2)
               else
                 (case partition_loop data a (i + 1) (j - 1) (Swap data i j s2) of
                    ((i', j'), s3) \<Rightarrow> ((j', False), Swap data j' a s3))))"

lemma partition_func_range:
  assumes "partition_func data a b pivot s = ((mid, alreadyPartitioned), s')" and "a < b"
  shows "a \<le> mid \<and> mid < b"
proof -
  obtain i s1 where u: "partition_up data a (b - 1) (a + 1) (Swap data a pivot s) = (i, s1)"
    by (cases "partition_up data a (b - 1) (a + 1) (Swap data a pivot s)")
  obtain j s2 where d: "partition_down data a i (b - 1) s1 = (j, s2)"
    by (cases "partition_down data a i (b - 1) s1")
  note ru = partition_up_range[OF u] and rd = partition_down_range[OF d]
  show ?thesis
  proof (cases "i > j")
    case True
    with u d assms(1) have "mid = j" by (simp add: partition_func_def)
    with ru rd assms(2) show ?thesis by (auto simp: min_def split: if_splits)
  next
    case False
    obtain i' j' s3 where l: "partition_loop data a (i + 1) (j - 1) (Swap data i j s2) =
        ((i', j'), s3)"
      by (cases "partition_loop data a (i + 1) (j - 1) (Swap data i j s2)") auto
    with False u d assms(1) have "mid = j'" by (simp add: partition_func_def)
    with partition_loop_range[OF l] ru rd assms(2) False show ?thesis
      by (auto simp: min_def split: if_splits)
  qed
qed

subsection \<open>partitionEqual\<close>

text \<open>\<open>for i <= j && !data.Less(a, i) { i++ }\<close>\<close>

function partitionEqual_up :: "'s lessSwap \<Rightarrow> int \<Rightarrow> int \<Rightarrow> int \<Rightarrow> 's \<Rightarrow> int \<times> 's" where
  "partitionEqual_up data a j i s =
     (if i \<le> j then
        (case Less data a i s of
           (lt, s') \<Rightarrow> if \<not> lt then partitionEqual_up data a j (i + 1) s' else (i, s'))
      else (i, s))"
  by pat_completeness auto
termination
  by (relation "measure (\<lambda>(data, a, j, i, s). nat (j + 1 - i))") auto

text \<open>\<open>for i <= j && data.Less(a, j) { j-- }\<close>\<close>

function partitionEqual_down :: "'s lessSwap \<Rightarrow> int \<Rightarrow> int \<Rightarrow> int \<Rightarrow> 's \<Rightarrow> int \<times> 's" where
  "partitionEqual_down data a i j s =
     (if i \<le> j then
        (case Less data a j s of
           (lt, s') \<Rightarrow> if lt then partitionEqual_down data a i (j - 1) s' else (j, s'))
      else (j, s))"
  by pat_completeness auto
termination
  by (relation "measure (\<lambda>(data, a, i, j, s). nat (j + 1 - i))") auto

lemma partitionEqual_up_range:
  "partitionEqual_up data a j i s = (i', s') \<Longrightarrow> i \<le> i'"
proof (induction data a j i s rule: partitionEqual_up.induct)
  case (1 data a j i s)
  show ?case
  proof (cases "i \<le> j")
    case False
    with 1(2) show ?thesis by simp
  next
    case True
    obtain lt s1 where l: "Less data a i s = (lt, s1)" by (cases "Less data a i s")
    show ?thesis
    proof (cases lt)
      case False
      with \<open>i \<le> j\<close> l 1(2) have "partitionEqual_up data a j (i + 1) s1 = (i', s')" by simp
      from 1(1)[OF \<open>i \<le> j\<close> l[symmetric] False this] show ?thesis by simp
    next
      case True
      with \<open>i \<le> j\<close> l 1(2) show ?thesis by simp
    qed
  qed
qed

lemma partitionEqual_down_range:
  "partitionEqual_down data a i j s = (j', s') \<Longrightarrow> j' \<le> j"
proof (induction data a i j s rule: partitionEqual_down.induct)
  case (1 data a i j s)
  show ?case
  proof (cases "i \<le> j")
    case False
    with 1(2) show ?thesis by simp
  next
    case True
    obtain lt s1 where l: "Less data a j s = (lt, s1)" by (cases "Less data a j s")
    show ?thesis
    proof (cases lt)
      case True
      with \<open>i \<le> j\<close> l 1(2) have "partitionEqual_down data a i (j - 1) s1 = (j', s')" by simp
      from 1(1)[OF \<open>i \<le> j\<close> l[symmetric] True this] show ?thesis by simp
    next
      case False
      with \<open>i \<le> j\<close> l 1(2) show ?thesis by simp
    qed
  qed
qed

declare partitionEqual_up.simps [simp del] partitionEqual_down.simps [simp del]

function partitionEqual_loop ::
  "'s lessSwap \<Rightarrow> int \<Rightarrow> int \<Rightarrow> int \<Rightarrow> 's \<Rightarrow> (int \<times> int) \<times> 's" where
  "partitionEqual_loop data a i j s =
     (case partitionEqual_up data a j i s of
        (i1, s1) \<Rightarrow>
          (case partitionEqual_down data a i1 j s1 of
             (j1, s2) \<Rightarrow>
               if i1 > j1 then ((i1, j1), s2)
               else partitionEqual_loop data a (i1 + 1) (j1 - 1) (Swap data i1 j1 s2)))"
  by pat_completeness auto
termination
proof (relation "measure (\<lambda>(data, a, i, j, s). nat (j - i + 1))", goal_cases)
  case 1
  show ?case by simp
next
  case (2 data a i j s x1 x2 y1 y2)
  from partitionEqual_up_range[OF 2(1)[symmetric]] partitionEqual_down_range[OF 2(2)[symmetric]]
    2(3)
  show ?case by simp
qed

lemma partitionEqual_loop_range:
  "partitionEqual_loop data a i j s = ((i', j'), s') \<Longrightarrow> i \<le> i'"
proof (induction data a i j s rule: partitionEqual_loop.induct)
  case (1 data a i j s)
  obtain i1 s1 where u: "partitionEqual_up data a j i s = (i1, s1)"
    by (cases "partitionEqual_up data a j i s")
  obtain j1 s2 where d: "partitionEqual_down data a i1 j s1 = (j1, s2)"
    by (cases "partitionEqual_down data a i1 j s1")
  note ru = partitionEqual_up_range[OF u]
  show ?case
  proof (cases "i1 > j1")
    case True
    with u d 1(2) have "i' = i1" by (simp add: partitionEqual_loop.simps[of data a i j s])
    with ru show ?thesis by simp
  next
    case False
    with u d 1(2) have "partitionEqual_loop data a (i1 + 1) (j1 - 1) (Swap data i1 j1 s2) =
        ((i', j'), s')"
      by (simp add: partitionEqual_loop.simps[of data a i j s])
    from 1(1)[OF u[symmetric] d[symmetric] False this] ru show ?thesis by simp
  qed
qed

declare partitionEqual_loop.simps [simp del]

definition partitionEqual_func ::
  "'s lessSwap \<Rightarrow> int \<Rightarrow> int \<Rightarrow> int \<Rightarrow> 's \<Rightarrow> int \<times> 's" where
  "partitionEqual_func data a b pivot s =
     (case partitionEqual_loop data a (a + 1) (b - 1) (Swap data a pivot s) of
        ((i, j), s') \<Rightarrow> (i, s'))"

lemma partitionEqual_func_range:
  "partitionEqual_func data a b pivot s = (mid, s') \<Longrightarrow> a < mid"
  using partitionEqual_loop_range[of data a "a + 1" "b - 1" "Swap data a pivot s"]
  by (auto simp: partitionEqual_func_def split: prod.splits)

lemma partition_func_range_sym:
  "x = (12::int) \<Longrightarrow> xa = b - a \<Longrightarrow> \<not> xa \<le> x \<Longrightarrow>
   (p, s') = partition_func data a b pivot s \<Longrightarrow> (mid, alreadyPartitioned) = p \<Longrightarrow>
   a \<le> mid \<and> mid < b \<and> a < b"
  using partition_func_range[of data a b pivot s mid alreadyPartitioned s'] by simp

lemma partitionEqual_func_range_sym:
  "x = (12::int) \<Longrightarrow> xa = b - a \<Longrightarrow> \<not> xa \<le> x \<Longrightarrow>
   (mid, s') = partitionEqual_func data a b pivot s \<Longrightarrow> a < mid \<and> a < b"
  using partitionEqual_func_range[of data a b pivot s mid s'] by simp

subsection \<open>pdqsort\<close>

text \<open>
  \<open>pdqsort_func(data, a, b, limit)\<close>. Its \<open>for\<close> loop is the recursion; the two flags
  \<open>wasBalanced\<close> and \<open>wasPartitioned\<close>, local to one call and both \<open>true\<close> at its start,
  are carried from one round to the next.
\<close>

function pdqsort_func ::
  "(64 word \<Rightarrow> 64 word) \<Rightarrow> 's lessSwap \<Rightarrow> int \<Rightarrow> int \<Rightarrow> int \<Rightarrow> bool \<Rightarrow> bool \<Rightarrow> 's \<Rightarrow> 's" where
  "pdqsort_func Next data a b limit wasBalanced wasPartitioned s =
     (let maxInsertion = 12; len = b - a in
      if len \<le> maxInsertion then insertionSort_func data a b s
      else if limit = 0 then heapSort_func data a b s
      else
        (case (if \<not> wasBalanced then (breakPatterns_func Next data a b s, limit - 1)
               else (s, limit)) of
           (s1, limit1) \<Rightarrow>
        (case choosePivot_func data a b s1 of
           ((pivot, hint), s2) \<Rightarrow>
        (case (if hint = decreasingHint
               then ((b - 1) - (pivot - a), increasingHint, reverseRange_func data a b s2)
               else (pivot, hint, s2)) of
           (pivot1, hint1, s3) \<Rightarrow>
        (case (if wasBalanced \<and> wasPartitioned \<and> hint1 = increasingHint
               then partialInsertionSort_func data a b s3
               else (False, s3)) of
           (isSorted, s4) \<Rightarrow>
             if isSorted then s4
             else
        (case (if a > 0
               then (case Less data (a - 1) pivot1 s4 of (lt, s') \<Rightarrow> (\<not> lt, s'))
               else (False, s4)) of
           (dup, s5) \<Rightarrow>
             if dup then
               (case partitionEqual_func data a b pivot1 s5 of
                  (mid, s6) \<Rightarrow>
                    pdqsort_func Next data mid b limit1 wasBalanced wasPartitioned s6)
             else
               (case partition_func data a b pivot1 s5 of
                  ((mid, alreadyPartitioned), s6) \<Rightarrow>
                    (let leftLen = mid - a; rightLen = b - mid;
                         balanceThreshold = len sdiv 8
                     in
                       if leftLen < rightLen then
                         pdqsort_func Next data (mid + 1) b limit1
                           (leftLen \<ge> balanceThreshold) alreadyPartitioned
                           (pdqsort_func Next data a mid limit1 True True s6)
                       else
                         pdqsort_func Next data a mid limit1
                           (rightLen \<ge> balanceThreshold) alreadyPartitioned
                           (pdqsort_func Next data (mid + 1) b limit1 True True s6)))))))))"
  by pat_completeness auto
termination
proof (relation "measure (\<lambda>(Next, data, a, b, limit, wasBalanced, wasPartitioned, s). nat (b - a))",
       goal_cases)
  case 1
  show ?case by simp
next
  case 2
  from partitionEqual_func_range_sym[OF 2(1-3) 2(14)] show ?case by simp
next
  case 3
  from partition_func_range_sym[OF 3(1-3) 3(14) 3(15)] show ?case by simp
next
  case 4
  from partition_func_range_sym[OF 4(1-3) 4(14) 4(15)] show ?case by simp
next
  case 5
  from partition_func_range_sym[OF 5(1-3) 5(14) 5(15)] show ?case by simp
next
  case 6
  from partition_func_range_sym[OF 6(1-3) 6(14) 6(15)] show ?case by simp
qed

declare pdqsort_func.simps [simp del]

text \<open>
  \<open>sort.Slice\<close>: \<open>limit := bits.Len(uint(length)); pdqsort_func(lessSwap{less, swap}, 0,
  length, limit)\<close>. The two callbacks come as \<open>data\<close>, the length of the slice as \<open>n\<close>.
\<close>

definition sort_Slice :: "(64 word \<Rightarrow> 64 word) \<Rightarrow> 's lessSwap \<Rightarrow> nat \<Rightarrow> 's \<Rightarrow> 's" where
  "sort_Slice Next data n s = pdqsort_func Next data 0 (int n) (int (bits_Len n)) True True s"

section \<open>deleteSimilarImages\<close>

text \<open>
  The operating system is a parameter too: \<open>os.Stat(path)\<close> followed by \<open>info.Size()\<close>
  gives the size of the file (an \<open>int64\<close>) or an error; \<open>os.Remove(path)\<close> gives an error
  or none, and the file system after the call. \<open>'fs\<close> is the state of the file system.
\<close>

record 'fs os =
  os_Stat :: "string \<Rightarrow> 'fs \<Rightarrow> error + 64 word"
  os_Remove :: "string \<Rightarrow> 'fs \<Rightarrow> error option \<times> 'fs"

text \<open>What the program acts on: the file system and standard output.\<close>

record 'fs world =
  files :: 'fs
  stdout :: "printed list"

text \<open>
  The comparison handed to \<open>sort.Slice\<close> (lines 156 to 168). It reads \<open>group[i]\<close>, \<open>group[j]\<close>
  and \<open>group[0]\<close> from the slice as it is when the comparison is made, and prints when a
  distance cannot be computed. The state it acts on is the slice and standard output.
\<close>

definition deleteSimilarImages_less ::
  "'h distance \<Rightarrow> int \<Rightarrow> int \<Rightarrow> 'h ImageInfo list \<times> printed list \<Rightarrow>
   bool \<times> 'h ImageInfo list \<times> printed list" where
  "deleteSimilarImages_less D i j = (\<lambda>(grp, out).
     (case D (Hash (grp ! nat i)) (Hash (grp ! 0)) of
        Inl err \<Rightarrow> (False, grp, out @ [Error_calculating_distance err])
      | Inr distanceI \<Rightarrow>
          (case D (Hash (grp ! nat j)) (Hash (grp ! 0)) of
             Inl err \<Rightarrow> (False, grp, out @ [Error_calculating_distance err])
           | Inr distanceJ \<Rightarrow> (distanceI < distanceJ, grp, out))))"

text \<open>The swap that \<open>sort.Slice\<close> makes for a slice: elements \<open>i\<close> and \<open>j\<close> change places.\<close>

definition slice_swap :: "int \<Rightarrow> int \<Rightarrow> 'a list \<times> printed list \<Rightarrow> 'a list \<times> printed list" where
  "slice_swap i j = (\<lambda>(grp, out). (grp[nat i := grp ! nat j, nat j := grp ! nat i], out))"

text \<open>
  The deletion loop (lines 171 to 181), over the members from index 1 on. The result is the
  pair the function returns and the file system it leaves.
\<close>

fun deleteSimilarImages_loop ::
  "'fs os \<Rightarrow> 'h ImageInfo list \<Rightarrow> 64 word \<Rightarrow> 'fs \<Rightarrow> (64 word \<times> error option) \<times> 'fs" where
  "deleteSimilarImages_loop os [] totalSaved fs = ((totalSaved, None), fs)"
| "deleteSimilarImages_loop os (item # rest) totalSaved fs =
     (case os_Stat os (Path item) fs of
        Inl err \<Rightarrow> ((0, Some err), fs)
      | Inr fileSize \<Rightarrow>
          (case os_Remove os (Path item) fs of
             (Some err, fs') \<Rightarrow> ((0, Some err), fs')
           | (None, fs') \<Rightarrow> deleteSimilarImages_loop os rest (totalSaved + fileSize) fs'))"

text \<open>
  \<open>deleteSimilarImages\<close>. \<open>sort.Slice\<close> is the parameter \<open>sortSlice\<close>. The result is the
  pair the function returns, the slice as the sort left it (the caller's slice is sorted in
  place) and the world after the call.
\<close>

definition deleteSimilarImages ::
  "(('h ImageInfo list \<times> printed list) lessSwap \<Rightarrow> nat \<Rightarrow>
      'h ImageInfo list \<times> printed list \<Rightarrow> 'h ImageInfo list \<times> printed list) \<Rightarrow>
   'h distance \<Rightarrow> 'fs os \<Rightarrow> 'h ImageInfo list \<Rightarrow> 'fs world \<Rightarrow>
   (64 word \<times> error option) \<times> 'h ImageInfo list \<times> 'fs world" where
  "deleteSimilarImages sortSlice D os grp w =
     (case sortSlice \<lparr>Less = deleteSimilarImages_less D, Swap = slice_swap\<rparr> (length grp)
             (grp, stdout w) of
        (sorted_grp, out) \<Rightarrow>
          (case deleteSimilarImages_loop os (drop 1 sorted_grp) 0 (files w) of
             (result, fs) \<Rightarrow> (result, sorted_grp, \<lparr>files = fs, stdout = out\<rparr>)))"

section \<open>main\<close>

text \<open>The loop of lines 60 to 69 over the groups, with the running total.\<close>

fun main_delete_loop ::
  "(('h ImageInfo list \<times> printed list) lessSwap \<Rightarrow> nat \<Rightarrow>
      'h ImageInfo list \<times> printed list \<Rightarrow> 'h ImageInfo list \<times> printed list) \<Rightarrow>
   'h distance \<Rightarrow> 'fs os \<Rightarrow> 'h ImageInfo list list \<Rightarrow> 64 word \<Rightarrow> 'fs world \<Rightarrow>
   64 word \<times> 'fs world" where
  "main_delete_loop sortSlice D os [] totalSaved w = (totalSaved, w)"
| "main_delete_loop sortSlice D os (grp # groups) totalSaved w =
     (if length grp > 1 then
        (case deleteSimilarImages sortSlice D os grp w of
           ((saved, Some err), _, w') \<Rightarrow>
             main_delete_loop sortSlice D os groups totalSaved
               (w'\<lparr>stdout := stdout w' @ [Error_deleting_images err]\<rparr>)
         | ((saved, None), _, w') \<Rightarrow>
             main_delete_loop sortSlice D os groups (totalSaved + saved) w')
      else main_delete_loop sortSlice D os groups totalSaved w)"

text \<open>What lines 49 to 55 print for the groups.\<close>

definition display_groups :: "'h ImageInfo list list \<Rightarrow> printed list" where
  "display_groups groups =
     concat (map (\<lambda>grp. Similar_images # map (\<lambda>img. Path_line (Path img)) grp @ [Blank_line])
                 groups)"

text \<open>
  \<open>main\<close>, after \<open>flag.Parse()\<close>: \<open>deleteFlag\<close> is the value of \<open>-d\<close> and \<open>args\<close> is
  \<open>flag.Args()\<close>. \<open>loadImages\<close> is a parameter: it is made of calls to collaborators only
  (the directory walk, the image decoders, the perceptual hash), and no property stated
  here is about it.
\<close>

definition main ::
  "(('h ImageInfo list \<times> printed list) lessSwap \<Rightarrow> nat \<Rightarrow>
      'h ImageInfo list \<times> printed list \<Rightarrow> 'h ImageInfo list \<times> printed list) \<Rightarrow>
   'h distance \<Rightarrow> (rat \<Rightarrow> rat) \<Rightarrow> (string \<Rightarrow> error + float64) \<Rightarrow> 'fs os \<Rightarrow>
   (string \<Rightarrow> 'fs world \<Rightarrow> ('h ImageInfo list \<times> error option) \<times> 'fs world) \<Rightarrow>
   bool \<Rightarrow> string list \<Rightarrow> 'fs world \<Rightarrow> 'fs world" where
  "main sortSlice D rnd sscanf os loadImages deleteFlag args w =
     (if length args < 2 then w\<lparr>stdout := stdout w @ [Usage]\<rparr>
      else
        (let dir = args ! 0 in
         case parsePercentage rnd sscanf (args ! 1) of
           (similarityThreshold, Some err) \<Rightarrow>
             w\<lparr>stdout := stdout w @ [Invalid_similarity_percentage err]\<rparr>
         | (similarityThreshold, None) \<Rightarrow>
             (case loadImages dir w of
                ((images, Some err), w1) \<Rightarrow>
                  w1\<lparr>stdout := stdout w1 @ [Error_loading_images err]\<rparr>
              | ((images, None), w1) \<Rightarrow>
                  (case findSimilarImages D rnd images similarityThreshold (stdout w1) of
                     (groups, out2) \<Rightarrow>
                       (let w2 = w1\<lparr>stdout := out2 @ display_groups groups\<rparr> in
                        if deleteFlag then
                          (case main_delete_loop sortSlice D os groups 0 w2 of
                             (totalSaved, w3) \<Rightarrow>
                               w3\<lparr>stdout := stdout w3 @ [Total_space_saved totalSaved]\<rparr>)
                        else w2)))))"


section \<open>A fingerprinting collaborator for the examples\<close>

text \<open>
  The examples need some fingerprinting collaborator. This one follows the hash the program
  gets from \<open>goimagehash.PerceptionHash\<close>: 64 bits and a kind; \<open>Distance\<close> refuses two
  hashes of different kinds and otherwise counts the bits in which they differ. No theorem
  about the program depends on it: there the collaborator is the parameter \<open>D\<close>.
\<close>

datatype Kind = Unknown | AHash | PHash | DHash | WHash

record ImageHash =
  hash :: "64 word"
  kind :: Kind

definition popcnt :: "64 word \<Rightarrow> int" where
  "popcnt x = int (length (filter (bit x) [0..<64]))"

definition ImageHash_Distance :: "ImageHash distance" where
  "ImageHash_Distance h other =
     (if kind h \<noteq> kind other then Inl ''Image hashes kind should be identical''
      else Inr (popcnt (hash h XOR hash other)))"

definition img :: "string \<Rightarrow> 64 word \<Rightarrow> ImageHash ImageInfo" where
  "img p h = \<lparr>Path = p, Hash = \<lparr>hash = h, kind = PHash\<rparr>\<rparr>"

text \<open>
  Four images: \<open>b\<close> and \<open>d\<close> are each 16 bits away from \<open>a\<close> and 32 bits away from each
  other; \<open>c\<close> is at least 32 bits away from all of them.
\<close>

definition four_images :: "ImageHash ImageInfo list" where
  "four_images =
     [img ''a.jpg'' 0, img ''b.jpg'' 0xFFFF, img ''c.png'' 0xFFFFFFFF00000000,
      img ''d.jpeg'' 0xFFFF0000]"

text \<open>
  Four images, two with a hash of one kind and two with a hash of another, the kinds
  alternating; and three images \<open>A\<close>, \<open>B\<close>, \<open>C\<close> with \<open>B\<close> 16 bits from \<open>A\<close>, \<open>C\<close> 20
  bits from \<open>A\<close> and 12 bits from \<open>B\<close>.
\<close>

definition mixed_four :: "ImageHash ImageInfo list" where
  "mixed_four =
     [img ''a.jpg'' 0, \<lparr>Path = ''x.png'', Hash = \<lparr>hash = 0, kind = AHash\<rparr>\<rparr>, img ''b.jpg'' 1,
      \<lparr>Path = ''y.png'', Hash = \<lparr>hash = 1, kind = AHash\<rparr>\<rparr>]"


section \<open>A file system for the examples\<close>

text \<open>
  The examples need some operating system. This one keeps a table from paths to files; a
  file has a size and may be protected against removal. \<open>Stat\<close> fails on a path that is
  not in the table, \<open>Remove\<close> on such a path and on a protected file.
\<close>

record table_file =
  file_size :: "64 word"
  protected :: bool

definition table_Stat :: "string \<Rightarrow> (string \<times> table_file) list \<Rightarrow> error + 64 word" where
  "table_Stat path fs =
     (case map_of fs path of
        None \<Rightarrow> Inl (''stat '' @ path @ '': no such file or directory'')
      | Some f \<Rightarrow> Inr (file_size f))"

definition table_Remove ::
  "string \<Rightarrow> (string \<times> table_file) list \<Rightarrow> error option \<times> (string \<times> table_file) list" where
  "table_Remove path fs =
     (case map_of fs path of
        None \<Rightarrow> (Some (''remove '' @ path @ '': no such file or directory''), fs)
      | Some f \<Rightarrow>
          if protected f then (Some (''remove '' @ path @ '': operation not permitted''), fs)
          else (None, filter (\<lambda>(p, f). p \<noteq> path) fs))"

definition table_os :: "(string \<times> table_file) list os" where
  "table_os = \<lparr>os_Stat = table_Stat, os_Remove = table_Remove\<rparr>"

section \<open>Inputs for the examples\<close>

text \<open>
  A stand-in for \<open>Sscanf\<close> with \<open>%f\<close> on the four kinds of argument: one that reads as
  NaN, one in range, one out of range and one that is no number.
\<close>

definition example_Sscanf :: "string \<Rightarrow> error + float64" where
  "example_Sscanf s =
     (if s = ''NaN'' then Inr NaN
      else if s = ''75'' then Inr (Fin 75)
      else if s = ''150'' then Inr (Fin 150)
      else Inl ''strconv.ParseFloat: parsing : invalid syntax'')"

text \<open>
  The group of three of the specification's example (distances 0, 5 and 2 from the
  anchor) with its files, the same files with \<open>x.jpg\<close> protected against removal, a
  second group with its files, and a group of thirteen: the anchor, then twelve images at
  distances 12, 11, ..., 1 from it, each file 1000 bytes long.
\<close>

definition three_images :: "ImageHash ImageInfo list" where
  "three_images = [img ''anchor.jpg'' 0, img ''x.jpg'' 0x1F, img ''y.jpg'' 0x3]"

definition three_files :: "(string \<times> table_file) list" where
  "three_files =
     [(''anchor.jpg'', \<lparr>file_size = 500, protected = False\<rparr>),
      (''x.jpg'', \<lparr>file_size = 300, protected = False\<rparr>),
      (''y.jpg'', \<lparr>file_size = 200, protected = False\<rparr>)]"

definition three_files_x_protected :: "(string \<times> table_file) list" where
  "three_files_x_protected =
     [(''anchor.jpg'', \<lparr>file_size = 500, protected = False\<rparr>),
      (''x.jpg'', \<lparr>file_size = 300, protected = True\<rparr>),
      (''y.jpg'', \<lparr>file_size = 200, protected = False\<rparr>)]"

definition two_more_images :: "ImageHash ImageInfo list" where
  "two_more_images = [img ''p.png'' 0xFF00, img ''q.png'' 0xFF01]"

definition five_files :: "(string \<times> table_file) list" where
  "five_files = three_files_x_protected @
     [(''p.png'', \<lparr>file_size = 70, protected = False\<rparr>),
      (''q.png'', \<lparr>file_size = 80, protected = False\<rparr>)]"

definition thirteen_images :: "ImageHash ImageInfo list" where
  "thirteen_images =
     [img ''00.jpg'' 0, img ''01.jpg'' 0xFFF, img ''02.jpg'' 0x7FF, img ''03.jpg'' 0x3FF,
      img ''04.jpg'' 0x1FF, img ''05.jpg'' 0xFF, img ''06.jpg'' 0x7F, img ''07.jpg'' 0x3F,
      img ''08.jpg'' 0x1F, img ''09.jpg'' 0xF, img ''10.jpg'' 0x7, img ''11.jpg'' 0x3,
      img ''12.jpg'' 0x1]"

definition thirteen_files :: "(string \<times> table_file) list" where
  "thirteen_files =
     map (\<lambda>i. (Path i, \<lparr>file_size = 1000, protected = False\<rparr>)) thirteen_images"

text \<open>
  The thirteen images in an array at address 0, and two calls of findSimilarImages one
  after the other at the threshold 4/5, with a runtime that doubles the capacity.
\<close>

definition thirteen_images_memory :: "ImageHash memory" where
  "thirteen_images_memory = \<lparr>arrays = (\<lambda>_. [])(0 := thirteen_images), allocated = 1\<rparr>"

definition thirteen_images_slice :: slice where
  "thirteen_images_slice = \<lparr>slice_array = 0, slice_len = 13, slice_cap = 13\<rparr>"

definition thirteen_first_call :: "slice list \<times> printed list \<times> ImageHash memory" where
  "thirteen_first_call = findSimilarImages_memory ImageHash_Distance id (\<lambda>c. 2 * c)
     thirteen_images_slice (Fin (4 / 5)) ([], thirteen_images_memory)"

definition thirteen_second_call :: "slice list \<times> printed list \<times> ImageHash memory" where
  "thirteen_second_call = findSimilarImages_memory ImageHash_Distance id (\<lambda>c. 2 * c)
     thirteen_images_slice (Fin (4 / 5)) (snd thirteen_first_call)"

section \<open>Notions the properties are stated with\<close>

text \<open>
  \<open>within_threshold D rnd t a b\<close>: the test of lines 136 to 142 succeeds for anchor \<open>a\<close> and
  candidate \<open>b\<close>, that is, the distance is computed without error and the similarity
  computed from it is at least the threshold.
\<close>

definition within_threshold ::
  "'h distance \<Rightarrow> (rat \<Rightarrow> rat) \<Rightarrow> float64 \<Rightarrow> 'h ImageInfo \<Rightarrow> 'h ImageInfo \<Rightarrow> bool" where
  "within_threshold D rnd t a b =
     (case D (Hash a) (Hash b) of Inl _ \<Rightarrow> False | Inr d \<Rightarrow> f64_ge (similarity rnd d) t)"

text \<open>
  What one run of the inner loop from \<open>j\<close> adds: the indices that join the group, and the
  lines it prints.
\<close>

definition joiners ::
  "'h distance \<Rightarrow> (rat \<Rightarrow> rat) \<Rightarrow> 'h ImageInfo list \<Rightarrow> float64 \<Rightarrow> (nat \<Rightarrow> bool) \<Rightarrow> nat \<Rightarrow> nat \<Rightarrow> nat list" where
  "joiners D rnd images t used i j =
     filter (\<lambda>m. \<not> used m \<and> within_threshold D rnd t (images ! i) (images ! m)) [j..<length images]"

definition distance_errors ::
  "'h distance \<Rightarrow> 'h ImageInfo list \<Rightarrow> (nat \<Rightarrow> bool) \<Rightarrow> nat \<Rightarrow> nat \<Rightarrow> printed list" where
  "distance_errors D images used i j =
     concat (map (\<lambda>m. if used m then []
                       else (case D (Hash (images ! i)) (Hash (images ! m)) of
                               Inl err \<Rightarrow> [Error_calculating_distance err] | Inr _ \<Rightarrow> []))
                 [j..<length images])"

text \<open>
  The grouping as the specification words it (section 4.1), on the images themselves:
  the first image not yet in a group is the anchor; the later images not yet in a group
  that are similar to it join it, in their order; the group is emitted when it has more
  than one member; the images that did not join are left for the later anchors.
  \<open>similar\<close> is the test of an anchor and a later image.
\<close>

function spec_group :: "('a \<Rightarrow> 'a \<Rightarrow> bool) \<Rightarrow> 'a list \<Rightarrow> 'a list list" where
  "spec_group similar [] = []"
| "spec_group similar (anchor # later) =
     (if filter (similar anchor) later \<noteq> [] then [anchor # filter (similar anchor) later] else [])
     @ spec_group similar (filter (\<lambda>x. \<not> similar anchor x) later)"
  by pat_completeness auto
termination
  by (relation "measure (\<lambda>(similar, xs). length xs)") (auto simp: less_Suc_eq_le)

text \<open>
  What the specification has the grouping log: for each anchor, one line for every later
  image not yet in a group whose distance to the anchor cannot be computed.
\<close>

function spec_printed ::
  "'h distance \<Rightarrow> ('h ImageInfo \<Rightarrow> 'h ImageInfo \<Rightarrow> bool) \<Rightarrow> 'h ImageInfo list \<Rightarrow> printed list" where
  "spec_printed D similar [] = []"
| "spec_printed D similar (anchor # later) =
     concat (map (\<lambda>x. case D (Hash anchor) (Hash x) of
                         Inl err \<Rightarrow> [Error_calculating_distance err] | Inr _ \<Rightarrow> []) later)
     @ spec_printed D similar (filter (\<lambda>x. \<not> similar anchor x) later)"
  by pat_completeness auto
termination
  by (relation "measure (\<lambda>(D, similar, xs). length xs)") (auto simp: less_Suc_eq_le)

text \<open>\<open>unclaimed images used i\<close>: the images from index \<open>i\<close> on that are not marked used.\<close>

definition unclaimed :: "'a list \<Rightarrow> (nat \<Rightarrow> bool) \<Rightarrow> nat \<Rightarrow> 'a list" where
  "unclaimed images used i = map ((!) images) (filter (\<lambda>k. \<not> used k) [i..<length images])"

text \<open>
  \<open>matches_nothing D rnd t images k\<close>: the image at index \<open>k\<close> passes the test with no
  image at another index, in either role.
\<close>

definition matches_nothing ::
  "'h distance \<Rightarrow> (rat \<Rightarrow> rat) \<Rightarrow> float64 \<Rightarrow> 'h ImageInfo list \<Rightarrow> nat \<Rightarrow> bool" where
  "matches_nothing D rnd t images k \<longleftrightarrow>
     (\<forall>m \<in> {..<length images}. m \<noteq> k \<longrightarrow>
        \<not> within_threshold D rnd t (images ! k) (images ! m) \<and>
        \<not> within_threshold D rnd t (images ! m) (images ! k))"

text \<open>
  The invariant of the outer loop: the groups emitted so far are the images at the indices
  \<open>igs\<close>; no index occurs twice; every index is in range and is either an anchor already
  passed or marked used; every group has an anchor and at least one more member, each of
  which comes after the anchor and passes the test against it.
\<close>

definition index_groups ::
  "'h distance \<Rightarrow> (rat \<Rightarrow> rat) \<Rightarrow> 'h ImageInfo list \<Rightarrow> float64 \<Rightarrow> nat \<Rightarrow> (nat \<Rightarrow> bool) \<Rightarrow>
   'h ImageInfo list list \<Rightarrow> nat list list \<Rightarrow> bool" where
  "index_groups D rnd images t i used groups igs \<longleftrightarrow>
     groups = map (map ((!) images)) igs \<and>
     distinct (concat igs) \<and>
     (\<forall>k \<in> set (concat igs). k < length images \<and> (k < i \<or> used k)) \<and>
     (\<forall>ig \<in> set igs. 2 \<le> length ig \<and>
        (\<forall>m \<in> set (tl ig). hd ig < m \<and> within_threshold D rnd t (images ! hd ig) (images ! m)))"

text \<open>
  \<open>exact_on_64ths rnd\<close>: rounding leaves \<open>k/64\<close> unchanged for every integer \<open>k\<close> of
  magnitude at most \<open>2^53\<close>. These are all binary64 values (a significand of at most 53
  bits, exponent \<open>-6\<close>), and IEEE 754 rounding returns a representable value unchanged.
\<close>

definition exact_on_64ths :: "(rat \<Rightarrow> rat) \<Rightarrow> bool" where
  "exact_on_64ths rnd \<longleftrightarrow> (\<forall>k::int. \<bar>k\<bar> \<le> 2 ^ 53 \<longrightarrow> rnd (of_int k / 64) = of_int k / 64)"

text \<open>
  \<open>anchored D key grp xs\<close>: the slice \<open>xs\<close> is a rearrangement of the group \<open>grp\<close> that
  still has the anchor of \<open>grp\<close> at index 0, and \<open>key\<close> gives the distance of every member
  to the anchor: each is computed without error and none is negative, the anchor's is 0.
\<close>

definition anchored ::
  "'h distance \<Rightarrow> ('h ImageInfo \<Rightarrow> int) \<Rightarrow> 'h ImageInfo list \<Rightarrow> 'h ImageInfo list \<Rightarrow> bool" where
  "anchored D key grp xs \<longleftrightarrow>
     xs \<noteq> [] \<and> hd xs = hd grp \<and> mset xs = mset grp \<and> key (hd grp) = 0 \<and>
     (\<forall>x \<in> set grp. D (Hash x) (Hash (hd grp)) = Inr (key x) \<and> 0 \<le> key x)"

text \<open>
  \<open>slice_ok m s\<close>: the slice \<open>s\<close> points to an array in use, all of whose first \<open>len(s)\<close>
  elements exist.
\<close>

definition slice_ok :: "'h memory \<Rightarrow> slice \<Rightarrow> bool" where
  "slice_ok m s = (slice_array s < allocated m \<and> slice_len s \<le> length (arrays m (slice_array s)))"

section \<open>The loops of findSimilarImages in closed form\<close>

lemma joiners_step:
  "j < length images \<Longrightarrow>
   joiners D rnd images t used i j =
     (if \<not> used j \<and> within_threshold D rnd t (images ! i) (images ! j) then [j] else [])
     @ joiners D rnd images t used i (Suc j)"
  by (simp add: joiners_def upt_conv_Cons)

lemma joiners_upd:
  "joiners D rnd images t (used(j := b)) i (Suc j) = joiners D rnd images t used i (Suc j)"
  unfolding joiners_def by (rule filter_cong) auto

lemma distance_errors_step:
  "j < length images \<Longrightarrow>
   distance_errors D images used i j =
     (if used j then []
      else (case D (Hash (images ! i)) (Hash (images ! j)) of
              Inl err \<Rightarrow> [Error_calculating_distance err] | Inr _ \<Rightarrow> []))
     @ distance_errors D images used i (Suc j)"
  by (simp add: distance_errors_def upt_conv_Cons)

lemma distance_errors_upd:
  "distance_errors D images (used(j := b)) i (Suc j) = distance_errors D images used i (Suc j)"
  unfolding distance_errors_def by (rule arg_cong[where f=concat], rule map_cong) auto

lemma joiners_end: "\<not> j < length images \<Longrightarrow> joiners D rnd images t used i j = []"
  by (simp add: joiners_def)

lemma distance_errors_end: "\<not> j < length images \<Longrightarrow> distance_errors D images used i j = []"
  by (simp add: distance_errors_def)

lemma inner_closed:
  "findSimilarImages_inner D rnd images t i j (grp, used, out) =
     (grp @ map ((!) images) (joiners D rnd images t used i j),
      (\<lambda>m. used m \<or> m \<in> set (joiners D rnd images t used i j)),
      out @ distance_errors D images used i j)"
proof (induction D rnd images t i j "(grp, used, out)" arbitrary: grp used out
       rule: findSimilarImages_inner.induct)
  case (1 D rnd images t i j grp used out)
  show ?case
  proof (cases "j < length images")
    case False
    then show ?thesis by (simp add: joiners_end distance_errors_end)
  next
    case lt: True
    show ?thesis
    proof (cases "used j")
      case True
      with lt 1(1) show ?thesis
        by (simp add: joiners_step[OF lt] distance_errors_step[OF lt])
    next
      case nu: False
      show ?thesis
      proof (cases "D (Hash (images ! i)) (Hash (images ! j))")
        case (Inl err)
        with lt nu 1(2)[OF lt nu Inl] show ?thesis
          by (simp add: joiners_step[OF lt] distance_errors_step[OF lt] within_threshold_def)
      next
        case (Inr d)
        show ?thesis
        proof (cases "f64_ge (similarity rnd d) t")
          case True
          with lt nu Inr 1(3)[OF lt nu Inr True] show ?thesis
            by (auto simp add: joiners_step[OF lt] distance_errors_step[OF lt] within_threshold_def
                joiners_upd distance_errors_upd fun_eq_iff)
        next
          case False
          with lt nu Inr 1(4)[OF lt nu Inr False] show ?thesis
            by (simp add: joiners_step[OF lt] distance_errors_step[OF lt] within_threshold_def)
        qed
      qed
    qed
  qed
qed

lemma set_joiners:
  "m \<in> set (joiners D rnd images t used i j) \<longleftrightarrow>
     j \<le> m \<and> m < length images \<and> \<not> used m \<and> within_threshold D rnd t (images ! i) (images ! m)"
  by (auto simp: joiners_def)

lemma distinct_joiners: "distinct (joiners D rnd images t used i j)"
  by (simp add: joiners_def)

lemma index_groups_skip:
  "index_groups D rnd images t i used groups igs \<Longrightarrow>
   index_groups D rnd images t (Suc i) used groups igs"
  unfolding index_groups_def by (auto simp: less_Suc_eq)

lemma index_groups_emit:
  assumes inv: "index_groups D rnd images t i used groups igs"
    and i: "i < length images" "\<not> used i"
    and J: "J = joiners D rnd images t used i (Suc i)" "J \<noteq> []"
  shows "index_groups D rnd images t (Suc i) (\<lambda>m. used m \<or> m \<in> set J)
           (groups @ [images ! i # map ((!) images) J]) (igs @ [i # J])"
proof -
  have Jm: "\<And>m. m \<in> set J \<Longrightarrow> i < m \<and> m < length images \<and> \<not> used m \<and>
                 within_threshold D rnd t (images ! i) (images ! m)"
    using J(1) by (auto simp: set_joiners)
  have dJ: "distinct J" using J(1) by (simp add: distinct_joiners)
  have old: "\<And>k. k \<in> set (concat igs) \<Longrightarrow> k < length images \<and> (k < i \<or> used k)"
    using inv unfolding index_groups_def by blast
  have d1: "distinct (concat igs)" using inv unfolding index_groups_def by blast
  have disj: "set (concat igs) \<inter> set (i # J) = {}"
  proof -
    { fix k assume k: "k \<in> set (concat igs)" "k \<in> set (i # J)"
      from old[OF k(1)] have "k < i \<or> used k" by simp
      moreover from k(2) have "k = i \<or> k \<in> set J" by simp
      ultimately have False using i(2) Jm[of k] by auto }
    then show ?thesis by blast
  qed
  have d2: "distinct (i # J)" using dJ Jm by auto
  have c1: "groups @ [images ! i # map ((!) images) J] = map (map ((!) images)) (igs @ [i # J])"
    using inv unfolding index_groups_def by simp
  have c2: "distinct (concat (igs @ [i # J]))"
    using d1 d2 disj by simp
  have c3: "\<forall>k \<in> set (concat (igs @ [i # J])).
              k < length images \<and> (k < Suc i \<or> (used k \<or> k \<in> set J))"
    using old i(1) Jm by (auto simp: less_Suc_eq)
  have c4: "\<forall>ig \<in> set (igs @ [i # J]). 2 \<le> length ig \<and>
        (\<forall>m \<in> set (tl ig). hd ig < m \<and> within_threshold D rnd t (images ! hd ig) (images ! m))"
  proof
    fix ig assume "ig \<in> set (igs @ [i # J])"
    then consider "ig \<in> set igs" | "ig = i # J" by auto
    then show "2 \<le> length ig \<and>
        (\<forall>m \<in> set (tl ig). hd ig < m \<and> within_threshold D rnd t (images ! hd ig) (images ! m))"
    proof cases
      case 1
      then show ?thesis using inv unfolding index_groups_def by blast
    next
      case 2
      have "2 \<le> length (i # J)" using J(2) by (cases J) auto
      with 2 Jm show ?thesis by auto
    qed
  qed
  show ?thesis unfolding index_groups_def using c1 c2 c3 c4 by blast
qed

declare findSimilarImages_outer.simps [simp del] findSimilarImages_inner.simps [simp del]

lemma outer_unfold_skip:
  "i < length images \<Longrightarrow> used i \<Longrightarrow>
   findSimilarImages_outer D rnd images t i (groups, used, out) =
   findSimilarImages_outer D rnd images t (Suc i) (groups, used, out)"
  by (subst findSimilarImages_outer.simps) simp

lemma outer_unfold_anchor:
  "i < length images \<Longrightarrow> \<not> used i \<Longrightarrow>
   findSimilarImages_inner D rnd images t i (Suc i) ([images ! i], used, out) = (g1, u1, o1) \<Longrightarrow>
   findSimilarImages_outer D rnd images t i (groups, used, out) =
   findSimilarImages_outer D rnd images t (Suc i)
     (if length g1 > 1 then groups @ [g1] else groups, u1, o1)"
  by (subst findSimilarImages_outer.simps) simp

lemma outer_unfold_end:
  "\<not> i < length images \<Longrightarrow>
   findSimilarImages_outer D rnd images t i (groups, used, out) = (groups, used, out)"
  by (subst findSimilarImages_outer.simps) simp

lemma outer_index_groups:
  "index_groups D rnd images t i used groups igs \<Longrightarrow>
   findSimilarImages_outer D rnd images t i (groups, used, out) = (groups', used', out') \<Longrightarrow>
   \<exists>igs'. index_groups D rnd images t (length images) used' groups' igs'"
proof (induction D rnd images t i "(groups, used, out)" arbitrary: groups used out igs
       rule: findSimilarImages_outer.induct)
  case (1 D rnd images t i groups used out)
  show ?case
  proof (cases "i < length images")
    case False
    with 1(4) have eq: "groups' = groups" "used' = used"
      by (simp_all add: outer_unfold_end)
    from False 1(3) have "index_groups D rnd images t (length images) used groups igs"
      unfolding index_groups_def by auto
    with eq show ?thesis by blast
  next
    case lt: True
    show ?thesis
    proof (cases "used i")
      case True
      with lt 1(4) have "findSimilarImages_outer D rnd images t (Suc i) (groups, used, out) =
          (groups', used', out')" by (simp add: outer_unfold_skip)
      from 1(1)[OF lt True index_groups_skip[OF 1(3)] this] show ?thesis .
    next
      case nu: False
      define J where "J = joiners D rnd images t used i (Suc i)"
      define u1 where "u1 = (\<lambda>m. used m \<or> m \<in> set J)"
      define o1 where "o1 = out @ distance_errors D images used i (Suc i)"
      define g1 where "g1 = images ! i # map ((!) images) J"
      have inner: "findSimilarImages_inner D rnd images t i (Suc i) ([images ! i], used, out) =
          (g1, u1, o1)"
        by (simp add: inner_closed J_def u1_def o1_def g1_def)
      show ?thesis
      proof (cases "J = []")
        case True
        then have u: "u1 = used" and g: "\<not> length g1 > 1" by (simp_all add: u1_def g1_def)
        from 1(4) g have run:
          "findSimilarImages_outer D rnd images t (Suc i) (groups, u1, o1) = (groups', used', out')"
          by (simp add: outer_unfold_anchor[OF lt nu inner])
        have inv': "index_groups D rnd images t (Suc i) u1
            (if length g1 > 1 then groups @ [g1] else groups) igs"
          using index_groups_skip[OF 1(3)] u g by simp
        from g run have run': "findSimilarImages_outer D rnd images t (Suc i)
            (if length g1 > 1 then groups @ [g1] else groups, u1, o1) = (groups', used', out')"
          by simp
        from 1(2)[OF lt nu inner[symmetric] refl inv' run'] show ?thesis .
      next
        case False
        then have g: "length g1 > 1" by (cases J) (simp_all add: g1_def)
        from 1(4) g have run:
          "findSimilarImages_outer D rnd images t (Suc i) (groups @ [g1], u1, o1) =
             (groups', used', out')"
          by (simp add: outer_unfold_anchor[OF lt nu inner])
        have "index_groups D rnd images t (Suc i) u1 (groups @ [g1]) (igs @ [i # J])"
          unfolding u1_def g1_def
          by (rule index_groups_emit[OF 1(3) lt nu J_def False])
        with g have inv': "index_groups D rnd images t (Suc i) u1
            (if length g1 > 1 then groups @ [g1] else groups) (igs @ [i # J])"
          by simp
        from g run have run': "findSimilarImages_outer D rnd images t (Suc i)
            (if length g1 > 1 then groups @ [g1] else groups, u1, o1) = (groups', used', out')"
          by simp
        from 1(2)[OF lt nu inner[symmetric] refl inv' run'] show ?thesis .
      qed
    qed
  qed
qed

lemma index_groups_init: "index_groups D rnd images t 0 (\<lambda>_. False) [] []"
  by (simp add: index_groups_def)

lemma findSimilarImages_index_groups:
  "\<exists>igs used'. index_groups D rnd images t (length images) used'
      (fst (findSimilarImages D rnd images t out)) igs"
proof -
  obtain groups' used' out' where run:
    "findSimilarImages_outer D rnd images t 0 ([], (\<lambda>_. False), out) = (groups', used', out')"
    by (metis prod_cases3)
  from outer_index_groups[OF index_groups_init run] obtain igs where
    "index_groups D rnd images t (length images) used' groups' igs" by blast
  moreover have "fst (findSimilarImages D rnd images t out) = groups'"
    by (simp add: findSimilarImages_def run)
  ultimately show ?thesis by auto
qed

lemma index_groups_partner:
  assumes "index_groups D rnd images t i used groups igs" "k \<in> set (concat igs)"
  shows "\<exists>m < length images. m \<noteq> k \<and>
           (within_threshold D rnd t (images ! k) (images ! m) \<or>
            within_threshold D rnd t (images ! m) (images ! k))"
proof -
  from assms(2) obtain ig where ig: "ig \<in> set igs" "k \<in> set ig" by auto
  from assms(1) ig(1) have len: "2 \<le> length ig"
    and tl: "\<And>m. m \<in> set (tl ig) \<Longrightarrow>
               hd ig < m \<and> within_threshold D rnd t (images ! hd ig) (images ! m)"
    and rng: "\<And>m. m \<in> set ig \<Longrightarrow> m < length images"
    unfolding index_groups_def by auto
  from len obtain a b rest where shape: "ig = a # b # rest"
    by (cases ig; cases "tl ig") auto
  show ?thesis
  proof (cases "k = a")
    case True
    have "a < b \<and> within_threshold D rnd t (images ! a) (images ! b)"
      using tl[of b] shape by simp
    moreover have "b < length images" using rng[of b] shape by simp
    ultimately show ?thesis using True by (intro exI[of _ b]) auto
  next
    case False
    with ig(2) shape have "k \<in> set (tl ig)" by auto
    from tl[OF this] shape have "a < k \<and> within_threshold D rnd t (images ! a) (images ! k)"
      by simp
    moreover have "a < length images" using rng[of a] shape by simp
    ultimately show ?thesis by (intro exI[of _ a]) auto
  qed
qed

lemma similarity_exact:
  assumes rnd: "exact_on_64ths rnd" and d: "\<bar>d\<bar> \<le> 2 ^ 47"
  shows "similarity rnd d = Fin (1 - of_int d / 64)"
proof -
  have r: "\<And>k::int. \<bar>k\<bar> \<le> 2 ^ 53 \<Longrightarrow> rnd (of_int k / 64) = of_int k / 64"
    using rnd unfolding exact_on_64ths_def by blast
  have "\<bar>64 * d\<bar> \<le> 2 ^ 53" using d by simp
  from r[OF this] have s1: "rnd (of_int d) = of_int d" by simp
  have "\<bar>d\<bar> \<le> 2 ^ 53" using d by simp
  from r[OF this] have s2: "rnd (of_int d / 64) = of_int d / 64" .
  have "\<bar>64 - d\<bar> \<le> 2 ^ 53" using d by simp
  from r[OF this] have s3: "rnd (1 - of_int d / 64) = 1 - of_int d / 64"
    by (simp add: diff_divide_distrib)
  show ?thesis by (simp add: similarity_def s1 s2 s3)
qed


subsection \<open>The whole pass and the specification's grouping\<close>

lemma unclaimed_end: "\<not> i < length images \<Longrightarrow> unclaimed images used i = []"
  by (simp add: unclaimed_def)

lemma unclaimed_used:
  "i < length images \<Longrightarrow> used i \<Longrightarrow> unclaimed images used i = unclaimed images used (Suc i)"
  by (simp add: unclaimed_def upt_conv_Cons)

lemma unclaimed_free:
  "i < length images \<Longrightarrow> \<not> used i \<Longrightarrow>
   unclaimed images used i = images ! i # unclaimed images used (Suc i)"
  by (simp add: unclaimed_def upt_conv_Cons)

lemma unclaimed_members:
  "filter (within_threshold D rnd t (images ! i)) (unclaimed images used (Suc i)) =
   map ((!) images) (joiners D rnd images t used i (Suc i))"
  by (simp add: unclaimed_def joiners_def filter_map o_def conj_commute)

lemma unclaimed_rest:
  "filter (\<lambda>x. \<not> within_threshold D rnd t (images ! i) x) (unclaimed images used (Suc i)) =
   unclaimed images (\<lambda>m. used m \<or> m \<in> set (joiners D rnd images t used i (Suc i))) (Suc i)"
proof -
  have "filter (\<lambda>k. \<not> used k \<and> \<not> within_threshold D rnd t (images ! i) (images ! k))
          [Suc i..<length images] =
        filter (\<lambda>k. \<not> used k \<and> k \<notin> set (joiners D rnd images t used i (Suc i)))
          [Suc i..<length images]"
    by (rule filter_cong) (auto simp: set_joiners)
  then show ?thesis
    by (simp add: unclaimed_def filter_map o_def)
qed

lemma outer_spec_group:
  "fst (findSimilarImages_outer D rnd images t i (groups, used, out)) =
   groups @ spec_group (within_threshold D rnd t) (unclaimed images used i)"
proof (induction "length images - i" arbitrary: i groups used out)
  case 0
  then have "\<not> i < length images" by simp
  then show ?case by (simp add: outer_unfold_end unclaimed_end)
next
  case (Suc n)
  then have lt: "i < length images" and n: "n = length images - Suc i" by simp_all
  show ?case
  proof (cases "used i")
    case True
    with Suc(1)[OF n] lt show ?thesis
      by (simp add: outer_unfold_skip unclaimed_used)
  next
    case False
    let ?J = "joiners D rnd images t used i (Suc i)"
    have g: "(1 < length (images ! i # map ((!) images) ?J)) = (map ((!) images) ?J \<noteq> [])"
      by (cases ?J) simp_all
    show ?thesis
      using lt False
      by (simp add: outer_unfold_anchor[OF _ _ inner_closed] Suc(1)[OF n]
            unclaimed_free unclaimed_members unclaimed_rest g del: map_is_Nil_conv)
  qed
qed

lemma findSimilarImages_spec_group:
  "fst (findSimilarImages D rnd images t out) = spec_group (within_threshold D rnd t) images"
  using outer_spec_group[of D rnd images t 0 "[]" "\<lambda>_. False" out]
  by (simp add: findSimilarImages_def split_beta unclaimed_def map_nth)

lemma concat_map_if_filter:
  "concat (map (\<lambda>m. if P m then [] else f m) xs) = concat (map f (filter (\<lambda>m. \<not> P m) xs))"
  by (induction xs) simp_all

lemma unclaimed_errors:
  "distance_errors D images used i (Suc i) =
   concat (map (\<lambda>x. case D (Hash (images ! i)) (Hash x) of
                       Inl err \<Rightarrow> [Error_calculating_distance err] | Inr _ \<Rightarrow> [])
               (unclaimed images used (Suc i)))"
  by (simp add: distance_errors_def unclaimed_def concat_map_if_filter o_def)

lemma outer_spec_printed:
  "snd (snd (findSimilarImages_outer D rnd images t i (groups, used, out))) =
   out @ spec_printed D (within_threshold D rnd t) (unclaimed images used i)"
proof (induction "length images - i" arbitrary: i groups used out)
  case 0
  then have "\<not> i < length images" by simp
  then show ?case by (simp add: outer_unfold_end unclaimed_end)
next
  case (Suc n)
  then have lt: "i < length images" and n: "n = length images - Suc i" by simp_all
  show ?case
  proof (cases "used i")
    case True
    with Suc(1)[OF n] lt show ?thesis
      by (simp add: outer_unfold_skip unclaimed_used)
  next
    case False
    show ?thesis
      using lt False
      by (simp add: outer_unfold_anchor[OF _ _ inner_closed] Suc(1)[OF n]
            unclaimed_free unclaimed_rest unclaimed_errors)
  qed
qed

lemma findSimilarImages_spec:
  "findSimilarImages D rnd images t out =
     (spec_group (within_threshold D rnd t) images,
      out @ spec_printed D (within_threshold D rnd t) images)"
  using outer_spec_group[of D rnd images t 0 "[]" "\<lambda>_. False" out]
    outer_spec_printed[of D rnd images t 0 "[]" "\<lambda>_. False" out]
  by (simp add: findSimilarImages_def split_beta unclaimed_def map_nth prod_eq_iff)

lemma outer_printed:
  "\<exists>more. snd (snd (findSimilarImages_outer D rnd images t i (groups, used, out))) = out @ more"
  by (simp add: outer_spec_printed)

lemma outer_prints_error:
  assumes "i < j" "j < length images" "\<not> used i" "\<not> used j"
    "D (Hash (images ! i)) (Hash (images ! j)) = Inl err"
  shows "Error_calculating_distance err \<in>
           set (snd (snd (findSimilarImages_outer D rnd images t i (groups, used, out))))"
proof -
  have lt: "i < length images" using assms(1,2) by simp
  have "j \<in> set [Suc i..<length images]" using assms(1,2) by simp
  then have "Error_calculating_distance err \<in> set (distance_errors D images used i (Suc i))"
    using assms(4,5) unfolding distance_errors_def
    by (auto intro!: bexI[of _ j])
  moreover obtain more where
    "snd (snd (findSimilarImages_outer D rnd images t i (groups, used, out))) =
       (out @ distance_errors D images used i (Suc i)) @ more"
    using outer_printed[of D rnd images t "Suc i" _ _
        "out @ distance_errors D images used i (Suc i)"] lt assms(3)
    by (auto simp: outer_unfold_anchor[OF _ _ inner_closed])
  ultimately show ?thesis by simp
qed

subsection \<open>The loops on the memory\<close>

declare findSimilarImages_memory_inner.simps [simp del]
declare findSimilarImages_memory_outer.simps [simp del]

lemma slice_elements_length: "slice_ok m s \<Longrightarrow> length (slice_elements m s) = slice_len s"
  by (simp add: slice_ok_def slice_elements_def)

lemma slice_elements_nth: "k < slice_len s \<Longrightarrow> slice_elements m s ! k = slice_index m s k"
  by (simp add: slice_elements_def slice_index_def)

lemma slice_elements_frame:
  "arrays m' (slice_array s) = arrays m (slice_array s) \<Longrightarrow> slice_elements m' s = slice_elements m s"
  by (simp add: slice_elements_def)

lemma slice_ok_frame:
  "slice_ok m s \<Longrightarrow> arrays m' (slice_array s) = arrays m (slice_array s) \<Longrightarrow>
   allocated m \<le> allocated m' \<Longrightarrow> slice_ok m' s"
  by (simp add: slice_ok_def)

lemma slice_literal_facts:
  assumes "slice_literal m x = (s', m')"
  shows "slice_elements m' s' = [x]"
    and "slice_ok m' s'"
    and "slice_array s' = allocated m"
    and "allocated m' = Suc (allocated m)"
    and "\<And>a. a \<noteq> allocated m \<Longrightarrow> arrays m' a = arrays m a"
  using assms by (auto simp: slice_literal_def slice_elements_def slice_ok_def)

lemma slice_append_facts:
  assumes "slice_append growslice m s x = (s', m')" and "slice_ok m s"
  shows "slice_elements m' s' = slice_elements m s @ [x]"
    and "slice_ok m' s'"
    and "allocated m \<le> allocated m'"
    and "slice_array s' = slice_array s \<or> allocated m \<le> slice_array s'"
    and "\<And>a. a < allocated m \<Longrightarrow> a \<noteq> slice_array s \<Longrightarrow> arrays m' a = arrays m a"
  using assms
  by (auto simp: slice_append_def Let_def slice_elements_def slice_ok_def split: if_splits)

lemma memory_inner_unfold_end:
  "\<not> j < slice_len images \<Longrightarrow>
   findSimilarImages_memory_inner D rnd growslice images t i j (grp, used, out, m) =
   (grp, used, out, m)"
  by (subst findSimilarImages_memory_inner.simps) simp

lemma memory_inner_unfold_used:
  "j < slice_len images \<Longrightarrow> used j \<Longrightarrow>
   findSimilarImages_memory_inner D rnd growslice images t i j (grp, used, out, m) =
   findSimilarImages_memory_inner D rnd growslice images t i (Suc j) (grp, used, out, m)"
  by (subst findSimilarImages_memory_inner.simps) simp

lemma memory_inner_unfold_error:
  "j < slice_len images \<Longrightarrow> \<not> used j \<Longrightarrow>
   D (Hash (slice_index m images i)) (Hash (slice_index m images j)) = Inl err \<Longrightarrow>
   findSimilarImages_memory_inner D rnd growslice images t i j (grp, used, out, m) =
   findSimilarImages_memory_inner D rnd growslice images t i (Suc j)
     (grp, used, out @ [Error_calculating_distance err], m)"
  by (subst findSimilarImages_memory_inner.simps) simp

lemma memory_inner_unfold_join:
  "j < slice_len images \<Longrightarrow> \<not> used j \<Longrightarrow>
   D (Hash (slice_index m images i)) (Hash (slice_index m images j)) = Inr d \<Longrightarrow>
   f64_ge (similarity rnd d) t \<Longrightarrow>
   slice_append growslice m grp (slice_index m images j) = (g1, m1) \<Longrightarrow>
   findSimilarImages_memory_inner D rnd growslice images t i j (grp, used, out, m) =
   findSimilarImages_memory_inner D rnd growslice images t i (Suc j)
     (g1, used(j := True), out, m1)"
  by (subst findSimilarImages_memory_inner.simps) simp

lemma memory_inner_unfold_pass:
  "j < slice_len images \<Longrightarrow> \<not> used j \<Longrightarrow>
   D (Hash (slice_index m images i)) (Hash (slice_index m images j)) = Inr d \<Longrightarrow>
   \<not> f64_ge (similarity rnd d) t \<Longrightarrow>
   findSimilarImages_memory_inner D rnd growslice images t i j (grp, used, out, m) =
   findSimilarImages_memory_inner D rnd growslice images t i (Suc j) (grp, used, out, m)"
  by (subst findSimilarImages_memory_inner.simps) simp

lemma inner_unfold_end:
  "\<not> j < length images \<Longrightarrow>
   findSimilarImages_inner D rnd images t i j (grp, used, out) = (grp, used, out)"
  by (subst findSimilarImages_inner.simps) simp

lemma inner_unfold_used:
  "j < length images \<Longrightarrow> used j \<Longrightarrow>
   findSimilarImages_inner D rnd images t i j (grp, used, out) =
   findSimilarImages_inner D rnd images t i (Suc j) (grp, used, out)"
  by (subst findSimilarImages_inner.simps) simp

lemma inner_unfold_error:
  "j < length images \<Longrightarrow> \<not> used j \<Longrightarrow> D (Hash (images ! i)) (Hash (images ! j)) = Inl err \<Longrightarrow>
   findSimilarImages_inner D rnd images t i j (grp, used, out) =
   findSimilarImages_inner D rnd images t i (Suc j)
     (grp, used, out @ [Error_calculating_distance err])"
  by (subst findSimilarImages_inner.simps) simp

lemma inner_unfold_join:
  "j < length images \<Longrightarrow> \<not> used j \<Longrightarrow> D (Hash (images ! i)) (Hash (images ! j)) = Inr d \<Longrightarrow>
   f64_ge (similarity rnd d) t \<Longrightarrow>
   findSimilarImages_inner D rnd images t i j (grp, used, out) =
   findSimilarImages_inner D rnd images t i (Suc j) (grp @ [images ! j], used(j := True), out)"
  by (subst findSimilarImages_inner.simps) simp

lemma inner_unfold_pass:
  "j < length images \<Longrightarrow> \<not> used j \<Longrightarrow> D (Hash (images ! i)) (Hash (images ! j)) = Inr d \<Longrightarrow>
   \<not> f64_ge (similarity rnd d) t \<Longrightarrow>
   findSimilarImages_inner D rnd images t i j (grp, used, out) =
   findSimilarImages_inner D rnd images t i (Suc j) (grp, used, out)"
  by (subst findSimilarImages_inner.simps) simp

text \<open>
  One pass of the inner loop on the memory computes what the loop on values computes, and
  writes only to the array of its group or to arrays it has allocated itself.
\<close>

lemma memory_inner_refines:
  "slice_ok m images \<Longrightarrow> slice_ok m grp \<Longrightarrow> slice_array images \<noteq> slice_array grp \<Longrightarrow>
   i < slice_len images \<Longrightarrow>
   findSimilarImages_memory_inner D rnd growslice images t i j (grp, used, out, m) =
     (grp', used', out', m') \<Longrightarrow>
   findSimilarImages_inner D rnd (slice_elements m images) t i j
       (slice_elements m grp, used, out) = (slice_elements m' grp', used', out')
   \<and> slice_ok m' grp' \<and> allocated m \<le> allocated m'
   \<and> (slice_array grp' = slice_array grp \<or> allocated m \<le> slice_array grp')
   \<and> (\<forall>a. a < allocated m \<and> a \<noteq> slice_array grp \<longrightarrow> arrays m' a = arrays m a)"
proof (induction "slice_len images - j" arbitrary: j grp used out m)
  case 0
  then have stop: "\<not> j < slice_len images" by simp
  have len: "length (slice_elements m images) = slice_len images"
    using 0 by (simp add: slice_elements_length)
  have pure: "findSimilarImages_inner D rnd (slice_elements m images) t i j
      (slice_elements m grp, used, out) = (slice_elements m grp, used, out)"
    using stop by (simp add: inner_unfold_end len)
  from 0(6) stop have "grp' = grp" "used' = used" "out' = out" "m' = m"
    by (simp_all add: memory_inner_unfold_end)
  with pure 0(3) show ?case by simp
next
  case (Suc n)
  then have j: "j < slice_len images" and n: "n = slice_len images - Suc j" by simp_all
  let ?imgs = "slice_elements m images"
  have len: "length ?imgs = slice_len images"
    using Suc.prems by (simp add: slice_elements_length)
  have at_i: "?imgs ! i = slice_index m images i"
    using Suc.prems by (simp add: slice_elements_nth)
  have at_j: "?imgs ! j = slice_index m images j"
    using j by (simp add: slice_elements_nth)
  note run = Suc.prems(5)
  show ?case
  proof (cases "used j")
    case True
    from run have "findSimilarImages_memory_inner D rnd growslice images t i (Suc j)
        (grp, used, out, m) = (grp', used', out', m')"
      using j True by (simp add: memory_inner_unfold_used)
    from Suc.hyps(1)[OF n Suc.prems(1-4) this] show ?thesis
      using j True by (simp add: inner_unfold_used len)
  next
    case False
    show ?thesis
    proof (cases "D (Hash (slice_index m images i)) (Hash (slice_index m images j))")
      case (Inl err)
      from run have "findSimilarImages_memory_inner D rnd growslice images t i (Suc j)
          (grp, used, out @ [Error_calculating_distance err], m) = (grp', used', out', m')"
        using j False Inl by (simp add: memory_inner_unfold_error)
      from Suc.hyps(1)[OF n Suc.prems(1-4) this] show ?thesis
        using j False Inl by (simp add: inner_unfold_error len at_i at_j)
    next
      case (Inr d)
      show ?thesis
      proof (cases "f64_ge (similarity rnd d) t")
        case no: False
        from run have "findSimilarImages_memory_inner D rnd growslice images t i (Suc j)
            (grp, used, out, m) = (grp', used', out', m')"
          using j False Inr no by (simp add: memory_inner_unfold_pass)
        from Suc.hyps(1)[OF n Suc.prems(1-4) this] show ?thesis
          using j False Inr no by (simp add: inner_unfold_pass[where d = d] len at_i at_j)
      next
        case yes: True
        obtain g1 m1 where app: "slice_append growslice m grp (slice_index m images j) = (g1, m1)"
          by (cases "slice_append growslice m grp (slice_index m images j)") auto
        note facts = slice_append_facts[OF app Suc.prems(2)]
        have img_lt: "slice_array images < allocated m"
          using Suc.prems(1) by (simp add: slice_ok_def)
        have img_same: "arrays m1 (slice_array images) = arrays m (slice_array images)"
          using facts(5)[OF img_lt Suc.prems(3)] .
        have ok1: "slice_ok m1 images"
          using slice_ok_frame[OF Suc.prems(1) img_same facts(3)] .
        have ne1: "slice_array images \<noteq> slice_array g1"
          using facts(4) Suc.prems(3) img_lt by auto
        have elems1: "slice_elements m1 images = ?imgs"
          using img_same by (rule slice_elements_frame)
        from run have run1: "findSimilarImages_memory_inner D rnd growslice images t i (Suc j)
            (g1, used(j := True), out, m1) = (grp', used', out', m')"
          using j False Inr yes app by (simp add: memory_inner_unfold_join[where d = d])
        note ih = Suc.hyps(1)[OF n ok1 facts(2) ne1 Suc.prems(4) run1]
        have pure: "findSimilarImages_inner D rnd ?imgs t i j (slice_elements m grp, used, out) =
            (slice_elements m' grp', used', out')"
          using ih j False Inr yes
          by (simp add: inner_unfold_join[where d = d] len at_i at_j elems1 facts(1))
        have frame: "\<forall>a. a < allocated m \<and> a \<noteq> slice_array grp \<longrightarrow> arrays m' a = arrays m a"
        proof (intro allI impI)
          fix a assume a: "a < allocated m \<and> a \<noteq> slice_array grp"
          then have "a < allocated m1" "a \<noteq> slice_array g1"
            using facts(3,4) by auto
          then have "arrays m' a = arrays m1 a" using ih by blast
          also have "\<dots> = arrays m a" using facts(5) a by blast
          finally show "arrays m' a = arrays m a" .
        qed
        have place: "slice_array grp' = slice_array grp \<or> allocated m \<le> slice_array grp'"
          using ih facts(3,4) by auto
        have "allocated m \<le> allocated m'" using ih facts(3) by simp
        with pure frame place ih show ?thesis by blast
      qed
    qed
  qed
qed

lemma memory_outer_unfold_end:
  "\<not> i < slice_len images \<Longrightarrow>
   findSimilarImages_memory_outer D rnd growslice images t i (groups, used, out, m) =
   (groups, used, out, m)"
  by (subst findSimilarImages_memory_outer.simps) simp

lemma memory_outer_unfold_skip:
  "i < slice_len images \<Longrightarrow> used i \<Longrightarrow>
   findSimilarImages_memory_outer D rnd growslice images t i (groups, used, out, m) =
   findSimilarImages_memory_outer D rnd growslice images t (Suc i) (groups, used, out, m)"
  by (subst findSimilarImages_memory_outer.simps) simp

lemma memory_outer_unfold_anchor:
  "i < slice_len images \<Longrightarrow> \<not> used i \<Longrightarrow>
   slice_literal m (slice_index m images i) = (g0, m0) \<Longrightarrow>
   findSimilarImages_memory_inner D rnd growslice images t i (Suc i) (g0, used, out, m0) =
     (g1, u1, o1, m1) \<Longrightarrow>
   findSimilarImages_memory_outer D rnd growslice images t i (groups, used, out, m) =
   findSimilarImages_memory_outer D rnd growslice images t (Suc i)
     (if slice_len g1 > 1 then groups @ [g1] else groups, u1, o1, m1)"
  by (subst findSimilarImages_memory_outer.simps) simp

text \<open>
  The outer loop on the memory computes what the loop on values computes, and leaves
  every array that was there before it started as it was.
\<close>

lemma memory_outer_refines:
  "slice_ok m images \<Longrightarrow> \<forall>g\<in>set groups. slice_ok m g \<Longrightarrow>
   findSimilarImages_memory_outer D rnd growslice images t i (groups, used, out, m) =
     (groups', used', out', m') \<Longrightarrow>
   findSimilarImages_outer D rnd (slice_elements m images) t i
       (map (slice_elements m) groups, used, out) = (map (slice_elements m') groups', used', out')
   \<and> (\<forall>a. a < allocated m \<longrightarrow> arrays m' a = arrays m a)
   \<and> allocated m \<le> allocated m'
   \<and> (\<forall>g\<in>set groups'. slice_ok m' g)"
proof (induction "slice_len images - i" arbitrary: i groups used out m)
  case 0
  then have stop: "\<not> i < slice_len images" by simp
  have len: "length (slice_elements m images) = slice_len images"
    using 0 by (simp add: slice_elements_length)
  have pure: "findSimilarImages_outer D rnd (slice_elements m images) t i
      (map (slice_elements m) groups, used, out) = (map (slice_elements m) groups, used, out)"
    using stop by (simp add: outer_unfold_end len)
  from 0(4) stop have "groups' = groups" "used' = used" "out' = out" "m' = m"
    by (simp_all add: memory_outer_unfold_end)
  with pure 0(3) show ?case by simp
next
  case (Suc n)
  then have i: "i < slice_len images" and n: "n = slice_len images - Suc i" by simp_all
  let ?imgs = "slice_elements m images"
  have len: "length ?imgs = slice_len images"
    using Suc.prems by (simp add: slice_elements_length)
  have at_i: "?imgs ! i = slice_index m images i"
    using i by (simp add: slice_elements_nth)
  note run = Suc.prems(3)
  show ?case
  proof (cases "used i")
    case True
    from run have "findSimilarImages_memory_outer D rnd growslice images t (Suc i)
        (groups, used, out, m) = (groups', used', out', m')"
      using i True by (simp add: memory_outer_unfold_skip)
    from Suc.hyps(1)[OF n Suc.prems(1,2) this] show ?thesis
      using i True by (simp add: outer_unfold_skip len)
  next
    case False
    obtain g0 m0 where lit: "slice_literal m (slice_index m images i) = (g0, m0)"
      by (cases "slice_literal m (slice_index m images i)") auto
    note lf = slice_literal_facts[OF lit]
    obtain g1 u1 o1 m1 where inner:
      "findSimilarImages_memory_inner D rnd growslice images t i (Suc i) (g0, used, out, m0) =
         (g1, u1, o1, m1)"
      by (cases "findSimilarImages_memory_inner D rnd growslice images t i (Suc i)
                   (g0, used, out, m0)") auto
    have img_lt: "slice_array images < allocated m"
      using Suc.prems(1) by (simp add: slice_ok_def)
    have img0: "arrays m0 (slice_array images) = arrays m (slice_array images)"
      using lf(5) img_lt by simp
    have ok0: "slice_ok m0 images"
      using slice_ok_frame[OF Suc.prems(1) img0] lf(4) by simp
    have ne0: "slice_array images \<noteq> slice_array g0"
      using lf(3) img_lt by simp
    have elems0: "slice_elements m0 images = ?imgs"
      using img0 by (rule slice_elements_frame)
    note inf = memory_inner_refines[OF ok0 lf(2) ne0 i inner]
    have pure_inner: "findSimilarImages_inner D rnd ?imgs t i (Suc i) ([?imgs ! i], used, out) =
        (slice_elements m1 g1, u1, o1)"
      using inf by (simp add: elems0 lf(1) at_i)
    have ok_g1: "slice_ok m1 g1" using inf by simp
    have frame1: "arrays m1 a = arrays m a" if "a < allocated m" for a
    proof -
      from that have "a < allocated m0" "a \<noteq> slice_array g0" using lf(3,4) by simp_all
      then have "arrays m1 a = arrays m0 a" using inf by blast
      also have "\<dots> = arrays m a" using lf(5) that by simp
      finally show ?thesis .
    qed
    have alloc1: "allocated m \<le> allocated m1" using inf lf(4) by simp
    have ok1: "slice_ok m1 images"
      using slice_ok_frame[OF Suc.prems(1) frame1[OF img_lt] alloc1] .
    have elems1: "slice_elements m1 images = ?imgs"
      using frame1[OF img_lt] by (rule slice_elements_frame)
    have old_ok: "slice_ok m1 g" if "g \<in> set groups" for g
    proof -
      from that Suc.prems(2) have g: "slice_ok m g" by blast
      then have "slice_array g < allocated m" by (simp add: slice_ok_def)
      from slice_ok_frame[OF g frame1[OF this] alloc1] show ?thesis .
    qed
    have old_elems: "slice_elements m1 g = slice_elements m g" if "g \<in> set groups" for g
    proof -
      from that Suc.prems(2) have "slice_array g < allocated m" by (auto simp: slice_ok_def)
      from frame1[OF this] show ?thesis by (rule slice_elements_frame)
    qed
    let ?groups1 = "if slice_len g1 > 1 then groups @ [g1] else groups"
    have oks1: "\<forall>g\<in>set ?groups1. slice_ok m1 g"
      using old_ok ok_g1 by auto
    have map1: "map (slice_elements m1) ?groups1 =
        (if length (slice_elements m1 g1) > 1
         then map (slice_elements m) groups @ [slice_elements m1 g1]
         else map (slice_elements m) groups)"
      using old_elems by (simp add: slice_elements_length[OF ok_g1])
    from run have run1: "findSimilarImages_memory_outer D rnd growslice images t (Suc i)
        (?groups1, u1, o1, m1) = (groups', used', out', m')"
      using memory_outer_unfold_anchor[OF i False lit inner] by simp
    note ih = Suc.hyps(1)[OF n ok1 oks1 run1]
    have pure: "findSimilarImages_outer D rnd ?imgs t i (map (slice_elements m) groups, used, out) =
        (map (slice_elements m') groups', used', out')"
      using ih i False
      by (simp only: outer_unfold_anchor[OF _ False pure_inner] len elems1 map1)
    have frame: "\<forall>a. a < allocated m \<longrightarrow> arrays m' a = arrays m a"
    proof (intro allI impI)
      fix a assume a: "a < allocated m"
      then have "a < allocated m1" using alloc1 by simp
      then have "arrays m' a = arrays m1 a" using ih by blast
      also have "\<dots> = arrays m a" using frame1[OF a] .
      finally show "arrays m' a = arrays m a" .
    qed
    have "allocated m \<le> allocated m'" using ih alloc1 by simp
    with pure frame ih show ?thesis by blast
  qed
qed

lemma memory_call_refines:
  assumes ok: "slice_ok m images"
    and run: "findSimilarImages_memory D rnd growslice images t (out, m) = (groups, out', m')"
  shows "findSimilarImages D rnd (slice_elements m images) t out =
           (map (slice_elements m') groups, out')"
    and "\<forall>a. a < allocated m \<longrightarrow> arrays m' a = arrays m a"
    and "allocated m \<le> allocated m'"
    and "\<forall>g\<in>set groups. slice_ok m' g"
proof -
  obtain used' where outer: "findSimilarImages_memory_outer D rnd growslice images t 0
      ([], (\<lambda>_. False), out, m) = (groups, used', out', m')"
    using run by (auto simp: findSimilarImages_memory_def split: prod.splits)
  have "\<forall>g\<in>set ([] :: slice list). slice_ok m g" by simp
  note r = memory_outer_refines[OF ok this outer]
  from r show "findSimilarImages D rnd (slice_elements m images) t out =
           (map (slice_elements m') groups, out')"
    by (simp add: findSimilarImages_def)
  from r show "\<forall>a. a < allocated m \<longrightarrow> arrays m' a = arrays m a" by blast
  from r show "allocated m \<le> allocated m'" by blast
  from r show "\<forall>g\<in>set groups. slice_ok m' g" by blast
qed

section \<open>Properties of findSimilarImages\<close>

lemma four_images_groups:
  "findSimilarImages ImageHash_Distance id four_images (Fin (3 / 4)) [] =
     ([[img ''a.jpg'' 0, img ''b.jpg'' 0xFFFF, img ''d.jpeg'' 0xFFFF0000]], [])"
  by code_simp

lemma four_images_c_matches_nothing:
  "matches_nothing ImageHash_Distance id (Fin (3 / 4)) four_images 2"
  by code_simp

lemma exact_on_64ths_id: "exact_on_64ths id"
  by (simp add: exact_on_64ths_def)

text \<open>
  C5. In every group that findSimilarImages returns, every member after the first has a
  distance to the first member (the anchor) that was computed without error and whose
  similarity is at least the threshold. Two members after the first need not pass the test
  against each other: in the group of the four example images, \<open>b\<close> and \<open>d\<close> do not.
\<close>

theorem members_within_threshold_of_anchor:
  "(\<forall>g \<in> set (fst (findSimilarImages D rnd images t out)).
      \<forall>x \<in> set (tl g). \<exists>d. D (Hash (hd g)) (Hash x) = Inr d \<and> f64_ge (similarity rnd d) t) \<and>
   (\<exists>g \<in> set (fst (findSimilarImages ImageHash_Distance id four_images (Fin (3 / 4)) [])).
      \<exists>x \<in> set (tl g). \<exists>y \<in> set (tl g).
        \<not> within_threshold ImageHash_Distance id (Fin (3 / 4)) x y)"
proof
  show "\<forall>g \<in> set (fst (findSimilarImages D rnd images t out)).
      \<forall>x \<in> set (tl g). \<exists>d. D (Hash (hd g)) (Hash x) = Inr d \<and> f64_ge (similarity rnd d) t"
  proof (intro ballI)
    fix g x assume g: "g \<in> set (fst (findSimilarImages D rnd images t out))" and x: "x \<in> set (tl g)"
    from findSimilarImages_index_groups[of D rnd images t out] obtain igs used' where
      inv: "index_groups D rnd images t (length images) used'
              (fst (findSimilarImages D rnd images t out)) igs" by blast
    then have eq: "fst (findSimilarImages D rnd images t out) = map (map ((!) images)) igs"
      unfolding index_groups_def by blast
    from g eq obtain ig where ig: "ig \<in> set igs" "g = map ((!) images) ig" by auto
    from inv ig(1) have len: "2 \<le> length ig"
      and tl: "\<And>m. m \<in> set (tl ig) \<Longrightarrow> within_threshold D rnd t (images ! hd ig) (images ! m)"
      unfolding index_groups_def by auto
    from len have ne: "ig \<noteq> []" by auto
    from x ig(2) have "x \<in> (!) images ` set (tl ig)"
      by (simp add: map_tl[symmetric])
    then obtain m where m: "m \<in> set (tl ig)" "x = images ! m"
      by (metis imageE)
    from ne ig(2) have "hd g = images ! hd ig" by (simp add: hd_map)
    with tl[OF m(1)] m(2) have "within_threshold D rnd t (hd g) x" by simp
    then show "\<exists>d. D (Hash (hd g)) (Hash x) = Inr d \<and> f64_ge (similarity rnd d) t"
      unfolding within_threshold_def by (cases "D (Hash (hd g)) (Hash x)") auto
  qed
next
  have "\<not> within_threshold ImageHash_Distance id (Fin (3 / 4))
          (img ''b.jpg'' 0xFFFF) (img ''d.jpeg'' 0xFFFF0000)"
    by code_simp
  then show "\<exists>g \<in> set (fst (findSimilarImages ImageHash_Distance id four_images (Fin (3 / 4)) [])).
      \<exists>x \<in> set (tl g). \<exists>y \<in> set (tl g).
        \<not> within_threshold ImageHash_Distance id (Fin (3 / 4)) x y"
    unfolding four_images_groups by simp
qed

theorem members_within_threshold_of_anchor_witness:
  "fst (findSimilarImages ImageHash_Distance id four_images (Fin (3 / 4)) []) =
     [[img ''a.jpg'' 0, img ''b.jpg'' 0xFFFF, img ''d.jpeg'' 0xFFFF0000]] \<and>
   (\<exists>d. ImageHash_Distance (Hash (img ''a.jpg'' 0)) (Hash (img ''d.jpeg'' 0xFFFF0000)) = Inr d \<and>
        f64_ge (similarity id d) (Fin (3 / 4)))"
  using members_within_threshold_of_anchor[of ImageHash_Distance id four_images "Fin (3 / 4)" "[]"]
  unfolding four_images_groups by simp

lemma index_witness:
  assumes "\<exists>igs. G = map (map f) igs \<and> distinct (concat igs) \<and>
             (\<forall>k \<in> set (concat igs). k < n \<and> \<not> P k)"
    and "P c" and "concat G \<noteq> []"
  shows "\<exists>igs. G = map (map f) igs \<and> distinct (concat igs) \<and> c \<notin> set (concat igs) \<and>
           concat igs \<noteq> []"
proof -
  from assms(1) obtain igs where igs: "G = map (map f) igs" "distinct (concat igs)"
    "\<forall>k \<in> set (concat igs). k < n \<and> \<not> P k" by blast
  from igs(3) assms(2) have "c \<notin> set (concat igs)" by blast
  moreover from assms(3) igs(1) have "concat igs \<noteq> []"
    by (simp add: map_concat[symmetric])
  ultimately show ?thesis using igs(1,2) by blast
qed

text \<open>
  C6. The groups that findSimilarImages returns are the images at certain indices of the
  input, and no index occurs twice, neither inside a group nor in two groups: the groups
  are pairwise disjoint. Every index is in range, and the index of an image that matches
  nothing does not occur.
\<close>

theorem groups_are_disjoint:
  "\<exists>igs. fst (findSimilarImages D rnd images t out) = map (map ((!) images)) igs \<and>
         distinct (concat igs) \<and>
         (\<forall>k \<in> set (concat igs). k < length images \<and> \<not> matches_nothing D rnd t images k)"
proof -
  from findSimilarImages_index_groups[of D rnd images t out] obtain igs used' where
    inv: "index_groups D rnd images t (length images) used'
            (fst (findSimilarImages D rnd images t out)) igs" by blast
  have "\<forall>k \<in> set (concat igs). k < length images \<and> \<not> matches_nothing D rnd t images k"
  proof
    fix k assume k: "k \<in> set (concat igs)"
    from index_groups_partner[OF inv k] have "\<not> matches_nothing D rnd t images k"
      unfolding matches_nothing_def by auto
    moreover from inv k have "k < length images" unfolding index_groups_def by blast
    ultimately show "k < length images \<and> \<not> matches_nothing D rnd t images k" by simp
  qed
  with inv show ?thesis unfolding index_groups_def by blast
qed

theorem groups_are_disjoint_witness:
  "\<exists>igs. [[img ''a.jpg'' 0, img ''b.jpg'' 0xFFFF, img ''d.jpeg'' 0xFFFF0000]] =
           map (map ((!) four_images)) igs \<and>
         distinct (concat igs) \<and> 2 \<notin> set (concat igs) \<and> concat igs \<noteq> []"
proof (rule index_witness)
  show "\<exists>igs. [[img ''a.jpg'' 0, img ''b.jpg'' 0xFFFF, img ''d.jpeg'' 0xFFFF0000]] =
           map (map ((!) four_images)) igs \<and>
         distinct (concat igs) \<and>
         (\<forall>k \<in> set (concat igs). k < length four_images \<and>
            \<not> matches_nothing ImageHash_Distance id (Fin (3 / 4)) four_images k)"
    using groups_are_disjoint[of ImageHash_Distance id four_images "Fin (3 / 4)" "[]"]
    unfolding four_images_groups fst_conv .
  show "matches_nothing ImageHash_Distance id (Fin (3 / 4)) four_images 2"
    by (rule four_images_c_matches_nothing)
  show "concat [[img ''a.jpg'' 0, img ''b.jpg'' 0xFFFF, img ''d.jpeg'' 0xFFFF0000]] \<noteq> []"
    by simp
qed

text \<open>
  C7. Every group that findSimilarImages returns has at least two members, and an image
  that matches nothing (its similarity to every other image is below the threshold, or
  cannot be computed) is in no group.
\<close>

theorem groups_have_two_members:
  "(\<forall>g \<in> set (fst (findSimilarImages D rnd images t out)). 2 \<le> length g) \<and>
   (\<forall>k < length images. matches_nothing D rnd t images k \<longrightarrow>
      images ! k \<notin> set (concat (fst (findSimilarImages D rnd images t out))))"
proof -
  from findSimilarImages_index_groups[of D rnd images t out] obtain igs used' where
    inv: "index_groups D rnd images t (length images) used'
            (fst (findSimilarImages D rnd images t out)) igs" by blast
  then have eq: "fst (findSimilarImages D rnd images t out) = map (map ((!) images)) igs"
    unfolding index_groups_def by blast
  have len: "\<forall>g \<in> set (fst (findSimilarImages D rnd images t out)). 2 \<le> length g"
    using inv unfolding index_groups_def by auto
  have absent: "\<forall>k < length images. matches_nothing D rnd t images k \<longrightarrow>
      images ! k \<notin> set (concat (fst (findSimilarImages D rnd images t out)))"
  proof (intro allI impI notI)
    fix k assume k: "k < length images" and mn: "matches_nothing D rnd t images k"
      and mem: "images ! k \<in> set (concat (fst (findSimilarImages D rnd images t out)))"
    from mem have "images ! k \<in> (!) images ` set (concat igs)"
      unfolding eq map_concat[symmetric] by simp
    then obtain p where p: "p \<in> set (concat igs)" "images ! p = images ! k"
      by (metis imageE)
    from index_groups_partner[OF inv p(1)] obtain m where m: "m < length images" "m \<noteq> p"
      "within_threshold D rnd t (images ! p) (images ! m) \<or>
       within_threshold D rnd t (images ! m) (images ! p)" by blast
    from inv p(1) have pl: "p < length images" unfolding index_groups_def by blast
    show False
    proof (cases "m = k")
      case False
      with mn m(1) m(3) p(2) show False unfolding matches_nothing_def by auto
    next
      case True
      with m(2) have "p \<noteq> k" by simp
      with mn pl have "\<not> within_threshold D rnd t (images ! k) (images ! p) \<and>
                      \<not> within_threshold D rnd t (images ! p) (images ! k)"
        unfolding matches_nothing_def by auto
      with m(3) True p(2) show False by simp
    qed
  qed
  from len absent show ?thesis by blast
qed

theorem groups_have_two_members_witness:
  "fst (findSimilarImages ImageHash_Distance id four_images (Fin (3 / 4)) []) =
     [[img ''a.jpg'' 0, img ''b.jpg'' 0xFFFF, img ''d.jpeg'' 0xFFFF0000]] \<and>
   2 < length four_images \<and>
   matches_nothing ImageHash_Distance id (Fin (3 / 4)) four_images 2 \<and>
   four_images ! 2 \<notin>
     set (concat (fst (findSimilarImages ImageHash_Distance id four_images (Fin (3 / 4)) [])))"
proof -
  have l: "2 < length four_images" by (simp add: four_images_def)
  from groups_have_two_members[of ImageHash_Distance id four_images "Fin (3 / 4)" "[]"]
    l four_images_c_matches_nothing
  have "four_images ! 2 \<notin>
     set (concat (fst (findSimilarImages ImageHash_Distance id four_images (Fin (3 / 4)) [])))"
    by blast
  with l four_images_c_matches_nothing four_images_groups show ?thesis by simp
qed




text \<open>
  C4. When the distance of the pair \<open>(i, j)\<close> cannot be computed, the pair fails the test
  and the inner loop goes on with the next candidate, the group and the used marks
  unchanged and the error printed. At the end of the loop \<open>j\<close> is still unmarked, the error
  is among the printed lines, and the group has gained exactly the later candidates that
  pass the test. The whole pass returns the groups and prints the lines of the
  specification's grouping, in which a pair that fails the test, with or without an error,
  leaves the later image to the later anchors and to its own turn as an anchor; so no
  failed comparison ends the pass. What the pass of an anchor prints stays in the output of
  the whole pass.
\<close>

theorem distance_error_skips_pair:
  assumes "j < length images" and "\<not> used j"
    and "D (Hash (images ! i)) (Hash (images ! j)) = Inl err"
  shows "findSimilarImages_inner D rnd images t i j (grp, used, out) =
         findSimilarImages_inner D rnd images t i (Suc j)
           (grp, used, out @ [Error_calculating_distance err]) \<and>
         \<not> fst (snd (findSimilarImages_inner D rnd images t i j (grp, used, out))) j \<and>
         Error_calculating_distance err \<in>
           set (snd (snd (findSimilarImages_inner D rnd images t i j (grp, used, out)))) \<and>
         fst (findSimilarImages_inner D rnd images t i j (grp, used, out)) =
           grp @ map ((!) images) (joiners D rnd images t used i (Suc j)) \<and>
         \<not> within_threshold D rnd t (images ! i) (images ! j) \<and>
         findSimilarImages D rnd images t out =
           (spec_group (within_threshold D rnd t) images,
            out @ spec_printed D (within_threshold D rnd t) images) \<and>
         (i < j \<and> \<not> used i \<longrightarrow>
            Error_calculating_distance err \<in>
              set (snd (snd (findSimilarImages_outer D rnd images t i (groups, used, out))))) \<and>
         (i = 0 \<and> 0 < j \<longrightarrow>
            Error_calculating_distance err \<in> set (snd (findSimilarImages D rnd images t out)))"
proof -
  have 1: "findSimilarImages_inner D rnd images t i j (grp, used, out) =
         findSimilarImages_inner D rnd images t i (Suc j)
           (grp, used, out @ [Error_calculating_distance err])"
    using assms by (subst findSimilarImages_inner.simps) simp
  have nw: "\<not> within_threshold D rnd t (images ! i) (images ! j)"
    using assms(3) by (simp add: within_threshold_def)
  have inner: "findSimilarImages_inner D rnd images t i j (grp, used, out) =
         findSimilarImages_inner D rnd images t i (Suc j)
           (grp, used, out @ [Error_calculating_distance err]) \<and>
         \<not> fst (snd (findSimilarImages_inner D rnd images t i j (grp, used, out))) j \<and>
         Error_calculating_distance err \<in>
           set (snd (snd (findSimilarImages_inner D rnd images t i j (grp, used, out)))) \<and>
         fst (findSimilarImages_inner D rnd images t i j (grp, used, out)) =
           grp @ map ((!) images) (joiners D rnd images t used i (Suc j))"
    unfolding 1 using assms nw
    by (simp add: inner_closed set_joiners)
  have outer: "i < j \<and> \<not> used i \<longrightarrow>
            Error_calculating_distance err \<in>
              set (snd (snd (findSimilarImages_outer D rnd images t i (groups, used, out))))"
    using outer_prints_error[of i j images used D err rnd t groups out] assms by blast
  have first: "i = 0 \<and> 0 < j \<longrightarrow>
            Error_calculating_distance err \<in> set (snd (findSimilarImages D rnd images t out))"
    using outer_prints_error[of 0 j images "\<lambda>_. False" D err rnd t "[]" out] assms(1,3)
    by (auto simp: findSimilarImages_def split_beta)
  from inner nw outer first findSimilarImages_spec[of D rnd images t out]
  show ?thesis by blast
qed

theorem distance_error_skips_pair_witness:
  "ImageHash_Distance (Hash (mixed_four ! 0)) (Hash (mixed_four ! 1)) =
     Inl ''Image hashes kind should be identical'' \<and>
   findSimilarImages_inner ImageHash_Distance id mixed_four (Fin (3 / 4)) 0 1
     ([mixed_four ! 0], (\<lambda>_. False), []) =
   findSimilarImages_inner ImageHash_Distance id mixed_four (Fin (3 / 4)) 0 2
     ([mixed_four ! 0], (\<lambda>_. False),
      [Error_calculating_distance ''Image hashes kind should be identical'']) \<and>
   findSimilarImages ImageHash_Distance id mixed_four (Fin (3 / 4)) [] =
     ([[img ''a.jpg'' 0, img ''b.jpg'' 1],
       [\<lparr>Path = ''x.png'', Hash = \<lparr>hash = 0, kind = AHash\<rparr>\<rparr>,
        \<lparr>Path = ''y.png'', Hash = \<lparr>hash = 1, kind = AHash\<rparr>\<rparr>]],
      [Error_calculating_distance ''Image hashes kind should be identical'',
       Error_calculating_distance ''Image hashes kind should be identical''])"
proof -
  have e: "ImageHash_Distance (Hash (mixed_four ! 0)) (Hash (mixed_four ! 1)) =
     Inl ''Image hashes kind should be identical''" by code_simp
  have l: "1 < length mixed_four" by (simp add: mixed_four_def)
  have g: "spec_group (within_threshold ImageHash_Distance id (Fin (3 / 4))) mixed_four =
     [[img ''a.jpg'' 0, img ''b.jpg'' 1],
       [\<lparr>Path = ''x.png'', Hash = \<lparr>hash = 0, kind = AHash\<rparr>\<rparr>,
        \<lparr>Path = ''y.png'', Hash = \<lparr>hash = 1, kind = AHash\<rparr>\<rparr>]]"
    by code_simp
  have p: "spec_printed ImageHash_Distance (within_threshold ImageHash_Distance id (Fin (3 / 4)))
       mixed_four =
     [Error_calculating_distance ''Image hashes kind should be identical'',
       Error_calculating_distance ''Image hashes kind should be identical'']"
    by code_simp
  from distance_error_skips_pair[where j = 1 and images = mixed_four and used = "\<lambda>_. False"
      and D = ImageHash_Distance and i = 0 and rnd = id and t = "Fin (3 / 4)"
      and grp = "[mixed_four ! 0]" and out = "[]", OF l _ e] e g p
  show ?thesis by (simp add: numeral_2_eq_2)
qed

text \<open>
  C8. findSimilarImages does not write to its input, and a second call returns what the
  first call returned. The function runs on the memory of the program, on a slice
  \<open>images\<close> whose array is in use, and is then called again on the same slice and threshold
  in the memory that the first call has left (the runtime may choose other capacities the
  second time). After either call the elements of \<open>images\<close> are those before the first
  call, and so is every array that was in use before the first call. The groups of the
  first call hold the grouping of the elements of \<open>images\<close>; the groups of the second
  call, which are in other arrays, hold the same elements in the same order, and the second
  call leaves the groups of the first as they were. The second call prints the lines the
  first call printed.
\<close>

theorem grouping_repeats_and_keeps_its_input:
  assumes "slice_ok m images"
    and "findSimilarImages_memory D rnd growslice images t (out, m) = (groups1, out1, m1)"
    and "findSimilarImages_memory D rnd growslice' images t (out1, m1) = (groups2, out2, m2)"
  shows "slice_elements m1 images = slice_elements m images
       \<and> slice_elements m2 images = slice_elements m images
       \<and> (\<forall>a. a < allocated m \<longrightarrow> arrays m1 a = arrays m a \<and> arrays m2 a = arrays m a)
       \<and> map (slice_elements m1) groups1 =
           spec_group (within_threshold D rnd t) (slice_elements m images)
       \<and> map (slice_elements m2) groups2 = map (slice_elements m1) groups1
       \<and> map (slice_elements m2) groups1 = map (slice_elements m1) groups1
       \<and> out1 = out @ spec_printed D (within_threshold D rnd t) (slice_elements m images)
       \<and> out2 = out1 @ spec_printed D (within_threshold D rnd t) (slice_elements m images)"
proof -
  let ?imgs = "slice_elements m images"
  note c1 = memory_call_refines[OF assms(1,2)]
  have img_lt: "slice_array images < allocated m"
    using assms(1) by (simp add: slice_ok_def)
  have same1: "arrays m1 (slice_array images) = arrays m (slice_array images)"
    using c1(2) img_lt by blast
  have ok1: "slice_ok m1 images"
    using slice_ok_frame[OF assms(1) same1 c1(3)] .
  have e1: "slice_elements m1 images = ?imgs"
    using same1 by (rule slice_elements_frame)
  note c2 = memory_call_refines[OF ok1 assms(3)]
  have same2: "arrays m2 (slice_array images) = arrays m (slice_array images)"
    using c2(2) c1(3) img_lt same1 by simp
  have e2: "slice_elements m2 images = ?imgs"
    using same2 by (rule slice_elements_frame)
  have frame: "\<forall>a. a < allocated m \<longrightarrow> arrays m1 a = arrays m a \<and> arrays m2 a = arrays m a"
  proof (intro allI impI)
    fix a assume a: "a < allocated m"
    then have 1: "arrays m1 a = arrays m a" using c1(2) by blast
    from a c1(3) have "a < allocated m1" by simp
    then have "arrays m2 a = arrays m1 a" using c2(2) by blast
    with 1 show "arrays m1 a = arrays m a \<and> arrays m2 a = arrays m a" by simp
  qed
  have g1: "map (slice_elements m1) groups1 = spec_group (within_threshold D rnd t) ?imgs"
    and o1: "out1 = out @ spec_printed D (within_threshold D rnd t) ?imgs"
    using c1(1) by (simp_all add: findSimilarImages_spec)
  have g2: "map (slice_elements m2) groups2 = spec_group (within_threshold D rnd t) ?imgs"
    and o2: "out2 = out1 @ spec_printed D (within_threshold D rnd t) ?imgs"
    using c2(1) by (simp_all add: findSimilarImages_spec e1)
  have kept: "map (slice_elements m2) groups1 = map (slice_elements m1) groups1"
  proof (rule map_cong[OF refl])
    fix g assume "g \<in> set groups1"
    with c1(4) have "slice_array g < allocated m1" by (auto simp: slice_ok_def)
    with c2(2) have "arrays m2 (slice_array g) = arrays m1 (slice_array g)" by blast
    then show "slice_elements m2 g = slice_elements m1 g" by (rule slice_elements_frame)
  qed
  from e1 e2 frame g1 g2 o1 o2 kept show ?thesis by simp
qed

theorem grouping_repeats_and_keeps_its_input_witness:
  "slice_ok thirteen_images_memory thirteen_images_slice
   \<and> slice_elements thirteen_images_memory thirteen_images_slice = thirteen_images
   \<and> fst thirteen_first_call = [\<lparr>slice_array = 5, slice_len = 13, slice_cap = 16\<rparr>]
   \<and> fst thirteen_second_call = [\<lparr>slice_array = 10, slice_len = 13, slice_cap = 16\<rparr>]
   \<and> map (slice_elements (snd (snd thirteen_first_call))) (fst thirteen_first_call) =
       [thirteen_images]
   \<and> map (slice_elements (snd (snd thirteen_second_call))) (fst thirteen_second_call) =
       [thirteen_images]
   \<and> map (slice_elements (snd (snd thirteen_second_call))) (fst thirteen_first_call) =
       [thirteen_images]
   \<and> slice_elements (snd (snd thirteen_first_call)) thirteen_images_slice = thirteen_images
   \<and> slice_elements (snd (snd thirteen_second_call)) thirteen_images_slice = thirteen_images
   \<and> arrays (snd (snd thirteen_first_call)) 0 = thirteen_images
   \<and> arrays (snd (snd thirteen_second_call)) 0 = thirteen_images"
proof -
  have ok: "slice_ok thirteen_images_memory thirteen_images_slice"
    by code_simp
  have input: "slice_elements thirteen_images_memory thirteen_images_slice = thirteen_images"
    by code_simp
  have at_0: "arrays thirteen_images_memory 0 = thirteen_images"
    and in_use: "0 < allocated thirteen_images_memory"
    by (simp_all add: thirteen_images_memory_def)
  have g1: "fst thirteen_first_call = [\<lparr>slice_array = 5, slice_len = 13, slice_cap = 16\<rparr>]"
    by code_simp
  have g2: "fst thirteen_second_call = [\<lparr>slice_array = 10, slice_len = 13, slice_cap = 16\<rparr>]"
    by code_simp
  have e1: "map (slice_elements (snd (snd thirteen_first_call))) (fst thirteen_first_call) =
      [thirteen_images]"
    by code_simp
  have r1: "findSimilarImages_memory ImageHash_Distance id (\<lambda>c. 2 * c) thirteen_images_slice
      (Fin (4 / 5)) ([], thirteen_images_memory) =
      (fst thirteen_first_call, fst (snd thirteen_first_call), snd (snd thirteen_first_call))"
    by (simp add: thirteen_first_call_def)
  have r2: "findSimilarImages_memory ImageHash_Distance id (\<lambda>c. 2 * c) thirteen_images_slice
      (Fin (4 / 5)) (fst (snd thirteen_first_call), snd (snd thirteen_first_call)) =
      (fst thirteen_second_call, fst (snd thirteen_second_call), snd (snd thirteen_second_call))"
    by (simp add: thirteen_second_call_def)
  note t = grouping_repeats_and_keeps_its_input[OF ok r1 r2]
  from t in_use have
    "arrays (snd (snd thirteen_first_call)) 0 = arrays thirteen_images_memory 0"
    "arrays (snd (snd thirteen_second_call)) 0 = arrays thirteen_images_memory 0"
    by blast+
  with t ok input at_0 g1 g2 e1 show ?thesis by simp
qed

text \<open>
  C10. The divisor in the similarity is the constant 64, whatever the collaborator: for
  every distance of magnitude at most \<open>2^47\<close>, and so for every distance in \<open>[0, 64]\<close>,
  the three rounded operations of line 141 give exactly \<open>1 - d/64\<close>.
\<close>

theorem similarity_is_one_minus_64ths:
  assumes "exact_on_64ths rnd" and "\<bar>d\<bar> \<le> 2 ^ 47"
  shows "similarity rnd d = Fin (1 - of_int d / 64)"
  using assms by (rule similarity_exact)

theorem similarity_is_one_minus_64ths_witness:
  "exact_on_64ths id \<and> \<bar>16 :: int\<bar> \<le> 2 ^ 47 \<and> similarity id 16 = Fin (3 / 4) \<and>
   similarity id 128 = Fin (- 1)"
  using similarity_is_one_minus_64ths[OF exact_on_64ths_id, of 16]
    similarity_is_one_minus_64ths[OF exact_on_64ths_id, of 128] exact_on_64ths_id
  by simp

section \<open>Properties of parsePercentage\<close>

lemma parsePercentage_error_iff:
  "snd (parsePercentage rnd sscanf percentageStr) \<noteq> None \<longleftrightarrow>
     (\<exists>err. sscanf percentageStr = Inl err) \<or>
     (\<exists>percentage. sscanf percentageStr = Inr percentage \<and>
        (f64_lt percentage (Fin 0) \<or> f64_gt percentage (Fin 100)))"
  by (cases "sscanf percentageStr") (auto simp: parsePercentage_def)

lemma parsePercentage_value:
  "parsePercentage rnd sscanf percentageStr = (threshold, None) \<Longrightarrow>
   \<exists>percentage. sscanf percentageStr = Inr percentage \<and>
     threshold = f64_div_pos rnd percentage 100"
  by (cases "sscanf percentageStr") (auto simp: parsePercentage_def split: if_splits)

lemma main_invalid_percentage:
  "2 \<le> length args \<Longrightarrow> parsePercentage rnd sscanf (args ! 1) = (threshold, Some err) \<Longrightarrow>
   main sortSlice D rnd sscanf os loadImages deleteFlag args w =
     w\<lparr>stdout := stdout w @ [Invalid_similarity_percentage err]\<rparr>"
  by (simp add: main_def)

text \<open>
  C9. An argument that \<open>Sscanf\<close> reads as NaN is accepted: NaN is neither below 0 nor
  above 100 in \<open>float64\<close>, so parsePercentage returns the threshold NaN and no error, and
  main goes on to load the images.
\<close>

theorem parsePercentage_accepts_NaN:
  assumes "sscanf percentageStr = Inr NaN"
  shows "parsePercentage rnd sscanf percentageStr = (NaN, None) \<and>
         (loadImages dir w = ((images, Some err), w1) \<longrightarrow>
            main sortSlice D rnd sscanf os loadImages deleteFlag [dir, percentageStr] w =
              w1\<lparr>stdout := stdout w1 @ [Error_loading_images err]\<rparr>)"
  using assms by (simp add: parsePercentage_def f64_gt_def main_def)

theorem parsePercentage_accepts_NaN_witness:
  "example_Sscanf ''NaN'' = Inr NaN \<and>
   parsePercentage id example_Sscanf ''NaN'' = (NaN, None) \<and>
   parsePercentage id example_Sscanf ''150'' =
     (Fin 0, Some ''percentage must be between 0 and 100'') \<and>
   parsePercentage id example_Sscanf ''75'' = (Fin (3 / 4), None)"
proof -
  have n: "example_Sscanf ''NaN'' = Inr NaN" by (simp add: example_Sscanf_def)
  have "parsePercentage id example_Sscanf ''150'' =
     (Fin 0, Some ''percentage must be between 0 and 100'')"
    by (simp add: parsePercentage_def example_Sscanf_def f64_gt_def)
  moreover have "parsePercentage id example_Sscanf ''75'' = (Fin (3 / 4), None)"
    by (simp add: parsePercentage_def example_Sscanf_def f64_gt_def)
  ultimately show ?thesis
    using parsePercentage_accepts_NaN[where sscanf = example_Sscanf and percentageStr = "''NaN''"
        and rnd = id, OF n, THEN conjunct1] n by simp
qed

section \<open>Properties of deleteSimilarImages\<close>

lemma deleteSimilarImages_loop_error:
  "deleteSimilarImages_loop os items tot fs = ((saved, Some err), fs') \<Longrightarrow> saved = 0"
proof (induction items arbitrary: tot fs)
  case Nil
  then show ?case by simp
next
  case (Cons item rest)
  show ?case
  proof (cases "os_Stat os (Path item) fs")
    case (Inl e)
    with Cons.prems show ?thesis by simp
  next
    case (Inr sz)
    obtain r fs1 where rm: "os_Remove os (Path item) fs = (r, fs1)"
      by (cases "os_Remove os (Path item) fs")
    show ?thesis
    proof (cases r)
      case None
      with Inr rm Cons.prems have
        "deleteSimilarImages_loop os rest (tot + sz) fs1 = ((saved, Some err), fs')" by simp
      then show ?thesis by (rule Cons.IH)
    next
      case (Some e)
      with Inr rm Cons.prems show ?thesis by simp
    qed
  qed
qed

lemma deleteSimilarImages_loop_append:
  "deleteSimilarImages_loop os pre tot fs = ((t1, None), fs1) \<Longrightarrow>
   deleteSimilarImages_loop os (pre @ rest) tot fs = deleteSimilarImages_loop os rest t1 fs1"
proof (induction pre arbitrary: tot fs)
  case Nil
  then show ?case by simp
next
  case (Cons item pre)
  show ?case
  proof (cases "os_Stat os (Path item) fs")
    case (Inl e)
    with Cons.prems show ?thesis by simp
  next
    case (Inr sz)
    obtain r fs2 where rm: "os_Remove os (Path item) fs = (r, fs2)"
      by (cases "os_Remove os (Path item) fs")
    show ?thesis
    proof (cases r)
      case None
      with Inr rm Cons.prems have
        "deleteSimilarImages_loop os pre (tot + sz) fs2 = ((t1, None), fs1)" by simp
      from Cons.IH[OF this] Inr rm None show ?thesis by simp
    next
      case (Some e)
      with Inr rm Cons.prems show ?thesis by simp
    qed
  qed
qed

lemma deleteSimilarImages_error:
  "deleteSimilarImages sortSlice D os grp w = ((saved, Some err), sorted_grp, w') \<Longrightarrow> saved = 0"
  by (auto simp: deleteSimilarImages_def split: prod.splits
           dest: deleteSimilarImages_loop_error)

text \<open>
  C3. When deleteSimilarImages returns an error, the byte count it returns is 0. In its
  loop, after any number of members deleted without error, a failing \<open>Stat\<close> or \<open>Remove\<close>
  ends the loop at once with 0 and the error: the bytes counted so far are dropped, the
  files deleted so far stay deleted and no later member is touched. The loop of main then
  prints the error and goes on with the next group, its running tot unchanged.
\<close>

theorem reclaim_failure_drops_group_bytes:
  "(deleteSimilarImages sortSlice D os grp w = ((saved, Some err), sorted_grp, w') \<longrightarrow>
      saved = 0 \<and>
      (1 < length grp \<longrightarrow>
         main_delete_loop sortSlice D os (grp # groups) totalSaved w =
         main_delete_loop sortSlice D os groups totalSaved
           (w'\<lparr>stdout := stdout w' @ [Error_deleting_images err]\<rparr>))) \<and>
   (deleteSimilarImages_loop os pre 0 fs = ((t1, None), fs1) \<longrightarrow>
      (os_Stat os (Path item) fs1 = Inl err1 \<longrightarrow>
         deleteSimilarImages_loop os (pre @ item # rest) 0 fs = ((0, Some err1), fs1)) \<and>
      (os_Stat os (Path item) fs1 = Inr fileSize \<and>
       os_Remove os (Path item) fs1 = (Some err2, fs2) \<longrightarrow>
         deleteSimilarImages_loop os (pre @ item # rest) 0 fs = ((0, Some err2), fs2)))"
proof (intro conjI impI)
  assume "deleteSimilarImages sortSlice D os grp w = ((saved, Some err), sorted_grp, w')"
  then show "saved = 0" by (rule deleteSimilarImages_error)
next
  assume "deleteSimilarImages sortSlice D os grp w = ((saved, Some err), sorted_grp, w')"
    and "1 < length grp"
  then show "main_delete_loop sortSlice D os (grp # groups) totalSaved w =
         main_delete_loop sortSlice D os groups totalSaved
           (w'\<lparr>stdout := stdout w' @ [Error_deleting_images err]\<rparr>)"
    by simp
next
  assume "deleteSimilarImages_loop os pre 0 fs = ((t1, None), fs1)"
    and "os_Stat os (Path item) fs1 = Inl err1"
  then show "deleteSimilarImages_loop os (pre @ item # rest) 0 fs = ((0, Some err1), fs1)"
    by (simp add: deleteSimilarImages_loop_append)
next
  assume "deleteSimilarImages_loop os pre 0 fs = ((t1, None), fs1)"
    and "os_Stat os (Path item) fs1 = Inr fileSize \<and>
         os_Remove os (Path item) fs1 = (Some err2, fs2)"
  then show "deleteSimilarImages_loop os (pre @ item # rest) 0 fs = ((0, Some err2), fs2)"
    by (simp add: deleteSimilarImages_loop_append)
qed

theorem reclaim_failure_drops_group_bytes_witness:
  "deleteSimilarImages (sort_Slice xorshift_Next) ImageHash_Distance table_os three_images
     \<lparr>files = three_files_x_protected, stdout = []\<rparr> =
     ((0, Some ''remove x.jpg: operation not permitted''),
      [img ''anchor.jpg'' 0, img ''y.jpg'' 0x3, img ''x.jpg'' 0x1F],
      \<lparr>files = [(''anchor.jpg'', \<lparr>file_size = 500, protected = False\<rparr>),
                (''x.jpg'', \<lparr>file_size = 300, protected = True\<rparr>)],
       stdout = []\<rparr>) \<and>
   main_delete_loop (sort_Slice xorshift_Next) ImageHash_Distance table_os [three_images, two_more_images] 0
     \<lparr>files = five_files, stdout = []\<rparr> =
     (80,
      \<lparr>files = [(''anchor.jpg'', \<lparr>file_size = 500, protected = False\<rparr>),
                (''x.jpg'', \<lparr>file_size = 300, protected = True\<rparr>),
                (''p.png'', \<lparr>file_size = 70, protected = False\<rparr>)],
       stdout = [Error_deleting_images ''remove x.jpg: operation not permitted'']\<rparr>)"
proof -
  have d1: "deleteSimilarImages (sort_Slice xorshift_Next) ImageHash_Distance table_os three_images
     \<lparr>files = three_files_x_protected, stdout = []\<rparr> =
     ((0, Some ''remove x.jpg: operation not permitted''),
      [img ''anchor.jpg'' 0, img ''y.jpg'' 0x3, img ''x.jpg'' 0x1F],
      \<lparr>files = [(''anchor.jpg'', \<lparr>file_size = 500, protected = False\<rparr>),
                (''x.jpg'', \<lparr>file_size = 300, protected = True\<rparr>)],
       stdout = []\<rparr>)"
    by code_simp
  have d2: "deleteSimilarImages (sort_Slice xorshift_Next) ImageHash_Distance table_os three_images
     \<lparr>files = five_files, stdout = []\<rparr> =
     ((0, Some ''remove x.jpg: operation not permitted''),
      [img ''anchor.jpg'' 0, img ''y.jpg'' 0x3, img ''x.jpg'' 0x1F],
      \<lparr>files = [(''anchor.jpg'', \<lparr>file_size = 500, protected = False\<rparr>),
                (''x.jpg'', \<lparr>file_size = 300, protected = True\<rparr>),
                (''p.png'', \<lparr>file_size = 70, protected = False\<rparr>),
                (''q.png'', \<lparr>file_size = 80, protected = False\<rparr>)],
       stdout = []\<rparr>)"
    by code_simp
  have l: "1 < length three_images" by (simp add: three_images_def)
  have rest: "main_delete_loop (sort_Slice xorshift_Next) ImageHash_Distance table_os [two_more_images] 0
      \<lparr>files = [(''anchor.jpg'', \<lparr>file_size = 500, protected = False\<rparr>),
                (''x.jpg'', \<lparr>file_size = 300, protected = True\<rparr>),
                (''p.png'', \<lparr>file_size = 70, protected = False\<rparr>),
                (''q.png'', \<lparr>file_size = 80, protected = False\<rparr>)],
       stdout = [Error_deleting_images ''remove x.jpg: operation not permitted'']\<rparr> =
     (80,
      \<lparr>files = [(''anchor.jpg'', \<lparr>file_size = 500, protected = False\<rparr>),
                (''x.jpg'', \<lparr>file_size = 300, protected = True\<rparr>),
                (''p.png'', \<lparr>file_size = 70, protected = False\<rparr>)],
       stdout = [Error_deleting_images ''remove x.jpg: operation not permitted'']\<rparr>)"
    by code_simp
  from reclaim_failure_drops_group_bytes[where sortSlice = "sort_Slice xorshift_Next"
      and D = ImageHash_Distance and os = table_os and grp = three_images
      and w = "\<lparr>files = five_files, stdout = []\<rparr>" and groups = "[two_more_images]"
      and totalSaved = 0 and pre = "[]",
      THEN conjunct1, rule_format, OF d2, THEN conjunct2, rule_format, OF l]
  have "main_delete_loop (sort_Slice xorshift_Next) ImageHash_Distance table_os
          [three_images, two_more_images] 0 \<lparr>files = five_files, stdout = []\<rparr> =
        main_delete_loop (sort_Slice xorshift_Next) ImageHash_Distance table_os [two_more_images] 0
      \<lparr>files = [(''anchor.jpg'', \<lparr>file_size = 500, protected = False\<rparr>),
                (''x.jpg'', \<lparr>file_size = 300, protected = True\<rparr>),
                (''p.png'', \<lparr>file_size = 70, protected = False\<rparr>),
                (''q.png'', \<lparr>file_size = 80, protected = False\<rparr>)],
       stdout = [Error_deleting_images ''remove x.jpg: operation not permitted'']\<rparr>"
    by simp
  with rest d1 show ?thesis by simp
qed

subsection \<open>Groups of at most twelve members\<close>

text \<open>
  For a slice of at most twelve elements \<open>sort.Slice\<close> is the insertion sort alone. When
  every distance to the anchor is computed without error and none is negative, no
  comparison ever finds the element at index 1 smaller than the one at index 0, so the
  anchor stays at index 0: the deletion loop then runs over the other members, in some
  order, and nothing is printed.
\<close>

lemma anchored_less:
  assumes "anchored D key grp xs" "0 \<le> i" "i < int (length xs)" "0 \<le> j" "j < int (length xs)"
  shows "deleteSimilarImages_less D i j (xs, out) =
           (key (xs ! nat i) < key (xs ! nat j), xs, out)"
proof -
  from assms(1) have k: "\<And>x. x \<in> set xs \<Longrightarrow> D (Hash x) (Hash (hd grp)) = Inr (key x)"
    and h: "xs ! 0 = hd grp"
    unfolding anchored_def by (auto simp: hd_conv_nth dest: mset_eq_setD)
  have "xs ! nat i \<in> set xs" "xs ! nat j \<in> set xs" using assms(2-5) by auto
  then show ?thesis by (simp add: deleteSimilarImages_less_def h k)
qed

lemma anchored_swap:
  assumes a: "anchored D key grp xs" and j: "1 \<le> j" "j < int (length xs)"
    and lt: "key (xs ! nat j) < key (xs ! nat (j - 1))"
  shows "anchored D key grp (xs[nat j := xs ! nat (j - 1), nat (j - 1) := xs ! nat j])"
proof -
  from a have ne: "xs \<noteq> []" and h: "xs ! 0 = hd grp" and k0: "key (hd grp) = 0"
    and kp: "\<And>x. x \<in> set xs \<Longrightarrow> 0 \<le> key x"
    unfolding anchored_def by (auto simp: hd_conv_nth dest: mset_eq_setD)
  have "xs ! nat j \<in> set xs" using j by auto
  from kp[OF this] lt h k0 have "nat (j - 1) \<noteq> 0" by (cases "nat (j - 1) = 0") auto
  then have j2: "2 \<le> j" by auto
  let ?ys = "xs[nat j := xs ! nat (j - 1), nat (j - 1) := xs ! nat j]"
  have m: "mset ?ys = mset xs" using j by (simp add: mset_swap)
  have "?ys ! 0 = xs ! 0" using j2 by simp
  moreover have "?ys \<noteq> []" using ne by simp
  ultimately show ?thesis using a m h unfolding anchored_def by (simp add: hd_conv_nth)
qed

declare insertionSort_shift.simps [simp del] insertionSort_loop.simps [simp del]

lemma insertionSort_shift_stop:
  "\<not> j > a \<Longrightarrow> insertionSort_shift data a j s = s"
  by (subst insertionSort_shift.simps) simp

lemma insertionSort_shift_step:
  "j > a \<Longrightarrow> Less data j (j - 1) s = (lt, s') \<Longrightarrow>
   insertionSort_shift data a j s =
     (if lt then insertionSort_shift data a (j - 1) (Swap data j (j - 1) s') else s')"
  by (subst insertionSort_shift.simps) simp

lemma insertionSort_loop_stop:
  "\<not> i < b \<Longrightarrow> insertionSort_loop data a b i s = s"
  by (subst insertionSort_loop.simps) simp

lemma insertionSort_loop_step:
  "i < b \<Longrightarrow> insertionSort_loop data a b i s =
     insertionSort_loop data a b (i + 1) (insertionSort_shift data a i s)"
  by (subst insertionSort_loop.simps) simp

lemma insertionSort_shift_anchored:
  "anchored D key grp xs \<Longrightarrow> j < int (length xs) \<Longrightarrow>
   \<exists>ys. insertionSort_shift \<lparr>Less = deleteSimilarImages_less D, Swap = slice_swap\<rparr> 0 j (xs, out) =
           (ys, out) \<and> anchored D key grp ys"
proof (induction "nat j" arbitrary: j xs)
  case 0
  then have "\<not> j > 0" by simp
  with 0 show ?case by (simp add: insertionSort_shift_stop)
next
  case (Suc n)
  then have j: "1 \<le> j" "j < int (length xs)" and n: "n = nat (j - 1)" by auto
  from j have j0: "j > 0" by simp
  have l: "Less \<lparr>Less = deleteSimilarImages_less D, Swap = slice_swap\<rparr> j (j - 1) (xs, out) =
      (key (xs ! nat j) < key (xs ! nat (j - 1)), xs, out)"
    using anchored_less[OF Suc(3), of j "j - 1" out] j by simp
  note step = insertionSort_shift_step[OF j0 l]
  show ?case
  proof (cases "key (xs ! nat j) < key (xs ! nat (j - 1))")
    case False
    with Suc(3) show ?thesis by (simp add: step)
  next
    case True
    let ?ys = "xs[nat j := xs ! nat (j - 1), nat (j - 1) := xs ! nat j]"
    from anchored_swap[OF Suc(3) j True] have a: "anchored D key grp ?ys" .
    have len: "j - 1 < int (length ?ys)" using j by simp
    from Suc(1)[OF n a len] obtain ys where
      "insertionSort_shift \<lparr>Less = deleteSimilarImages_less D, Swap = slice_swap\<rparr> 0 (j - 1)
         (?ys, out) = (ys, out)" "anchored D key grp ys" by blast
    with True show ?thesis
      by (simp add: step slice_swap_def)
  qed
qed

lemma anchored_length: "anchored D key grp xs \<Longrightarrow> length xs = length grp"
  unfolding anchored_def by (metis size_mset)

lemma insertionSort_loop_anchored:
  "anchored D key grp xs \<Longrightarrow> b = int (length grp) \<Longrightarrow> 0 \<le> i \<Longrightarrow>
   \<exists>ys. insertionSort_loop \<lparr>Less = deleteSimilarImages_less D, Swap = slice_swap\<rparr> 0 b i (xs, out) =
           (ys, out) \<and> anchored D key grp ys"
proof (induction "nat (b - i)" arbitrary: i xs)
  case 0
  then have "\<not> i < b" by simp
  with 0 show ?case by (simp add: insertionSort_loop_stop)
next
  case (Suc n)
  then have i: "i < b" and n: "n = nat (b - (i + 1))" by auto
  from i Suc(4) anchored_length[OF Suc(3)] have "i < int (length xs)" by simp
  from insertionSort_shift_anchored[OF Suc(3) this, of out] obtain ys where ys:
    "insertionSort_shift \<lparr>Less = deleteSimilarImages_less D, Swap = slice_swap\<rparr> 0 i (xs, out) =
       (ys, out)" "anchored D key grp ys" by blast
  from Suc(1)[OF n ys(2) Suc(4)] Suc(5) obtain zs where
    "insertionSort_loop \<lparr>Less = deleteSimilarImages_less D, Swap = slice_swap\<rparr> 0 b (i + 1)
       (ys, out) = (zs, out)" "anchored D key grp zs" by auto
  with i ys(1) show ?case by (simp add: insertionSort_loop_step)
qed

lemma sort_Slice_short_group:
  assumes "grp \<noteq> []" and "length grp \<le> 12" and "key (hd grp) = 0"
    and "\<forall>x \<in> set grp. D (Hash x) (Hash (hd grp)) = Inr (key x) \<and> 0 \<le> key x"
  shows "\<exists>sorted_grp.
           sort_Slice Next \<lparr>Less = deleteSimilarImages_less D, Swap = slice_swap\<rparr> (length grp)
             (grp, out) = (sorted_grp, out) \<and>
           hd sorted_grp = hd grp \<and> mset sorted_grp = mset grp"
proof -
  from assms have a: "anchored D key grp grp" by (simp add: anchored_def)
  have "sort_Slice Next \<lparr>Less = deleteSimilarImages_less D, Swap = slice_swap\<rparr> (length grp) (grp, out) =
        insertionSort_loop \<lparr>Less = deleteSimilarImages_less D, Swap = slice_swap\<rparr> 0
          (int (length grp)) 1 (grp, out)"
    using assms(2) by (simp add: sort_Slice_def pdqsort_func.simps insertionSort_func_def)
  with insertionSort_loop_anchored[OF a refl, of 1 out] show ?thesis
    by (auto simp: anchored_def)
qed

lemma deleteSimilarImages_short_group:
  assumes "grp \<noteq> []" and "length grp \<le> 12" and "key (hd grp) = 0"
    and "\<forall>x \<in> set grp. D (Hash x) (Hash (hd grp)) = Inr (key x) \<and> 0 \<le> key x"
  shows "\<exists>sorted_grp.
           deleteSimilarImages (sort_Slice Next) D os grp w =
             (fst (deleteSimilarImages_loop os (tl sorted_grp) 0 (files w)), sorted_grp,
              \<lparr>files = snd (deleteSimilarImages_loop os (tl sorted_grp) 0 (files w)),
               stdout = stdout w\<rparr>) \<and>
           hd sorted_grp = hd grp \<and> mset (tl sorted_grp) = mset (tl grp)"
proof -
  from sort_Slice_short_group[where grp = grp and key = key and D = D and out = "stdout w"
      and Next = Next,
      OF assms] obtain sorted_grp where s:
    "sort_Slice Next \<lparr>Less = deleteSimilarImages_less D, Swap = slice_swap\<rparr> (length grp)
       (grp, stdout w) = (sorted_grp, stdout w)"
    "hd sorted_grp = hd grp" "mset sorted_grp = mset grp" by blast
  from s(3) assms(1) have ne: "sorted_grp \<noteq> []" by auto
  from ne assms(1) s(2,3) have "mset (hd grp # tl sorted_grp) = mset (hd grp # tl grp)"
    by (metis list.collapse)
  then have t: "mset (tl sorted_grp) = mset (tl grp)" by simp
  have "deleteSimilarImages (sort_Slice Next) D os grp w =
          (fst (deleteSimilarImages_loop os (tl sorted_grp) 0 (files w)), sorted_grp,
           \<lparr>files = snd (deleteSimilarImages_loop os (tl sorted_grp) 0 (files w)),
            stdout = stdout w\<rparr>)"
    by (simp add: deleteSimilarImages_def s(1) drop_Suc split_beta)
  with s(2) t show ?thesis by blast
qed

text \<open>
  C1. A group of thirteen images, as findSimilarImages returns it at a threshold of 80
  per cent: the anchor first, then twelve images at distances 12, 11, ..., 1 from it.
  \<open>sort.Slice\<close> moves its pivot to index 0 while it partitions, and the comparison reads
  \<open>group[0]\<close> from the slice as it then is. The slice ends with the seventh image first
  and the anchor last; the anchor's file is deleted and the seventh image's file is the one
  that stays. On the group of three of the specification's example (distances 0, 5, 2)
  the anchor stays first and its file is the one that stays.
\<close>

theorem anchor_deleted_in_group_of_thirteen:
  "fst (findSimilarImages ImageHash_Distance id thirteen_images (Fin (4 / 5)) []) =
     [thirteen_images] \<and>
   (case deleteSimilarImages (sort_Slice Next) ImageHash_Distance table_os thirteen_images
           \<lparr>files = thirteen_files, stdout = []\<rparr> of
      (result, sorted_grp, w) \<Rightarrow> (result, map Path sorted_grp, map fst (files w))) =
     ((12000, None),
      [''06.jpg'', ''05.jpg'', ''07.jpg'', ''04.jpg'', ''08.jpg'', ''03.jpg'', ''09.jpg'',
       ''02.jpg'', ''10.jpg'', ''01.jpg'', ''11.jpg'', ''12.jpg'', ''00.jpg''],
      [''06.jpg'']) \<and>
   (case deleteSimilarImages (sort_Slice Next) ImageHash_Distance table_os three_images
           \<lparr>files = three_files, stdout = []\<rparr> of
      (result, sorted_grp, w) \<Rightarrow> (result, map Path sorted_grp, map fst (files w))) =
     ((500, None), [''anchor.jpg'', ''y.jpg'', ''x.jpg''], [''anchor.jpg''])"
proof (intro conjI)
  show "fst (findSimilarImages ImageHash_Distance id thirteen_images (Fin (4 / 5)) []) =
     [thirteen_images]"
    by code_simp
  show "(case deleteSimilarImages (sort_Slice Next) ImageHash_Distance table_os thirteen_images
           \<lparr>files = thirteen_files, stdout = []\<rparr> of
      (result, sorted_grp, w) \<Rightarrow> (result, map Path sorted_grp, map fst (files w))) =
     ((12000, None),
      [''06.jpg'', ''05.jpg'', ''07.jpg'', ''04.jpg'', ''08.jpg'', ''03.jpg'', ''09.jpg'',
       ''02.jpg'', ''10.jpg'', ''01.jpg'', ''11.jpg'', ''12.jpg'', ''00.jpg''],
      [''06.jpg''])"
    by code_simp
  show "(case deleteSimilarImages (sort_Slice Next) ImageHash_Distance table_os three_images
           \<lparr>files = three_files, stdout = []\<rparr> of
      (result, sorted_grp, w) \<Rightarrow> (result, map Path sorted_grp, map fst (files w))) =
     ((500, None), [''anchor.jpg'', ''y.jpg'', ''x.jpg''], [''anchor.jpg''])"
    by code_simp
qed

end
